theory Spec2Isabelle
  imports Complex_Main "HOL-Library.Sublist"
begin

section \<open>The streaming player of \<^verbatim>\<open>E3_Streamer/player.py\<close>\<close>

text \<open>
  The player runs three threads over one \<^verbatim>\<open>Player\<close> object: the caller of \<^verbatim>\<open>run\<close>
  (the producer), \<^verbatim>\<open>write_audio_stream\<close> and \<^verbatim>\<open>write_video_stream\<close>; inside
  \<^verbatim>\<open>video_second\<close> a thread pool runs one enhancement call per frame. The model is an
  interleaving semantics: every thread is a small machine whose control points are the
  source lines at which it touches shared data, a schedule (a list of scheduler choices)
  picks which thread takes its next step, and every universally quantified schedule is one
  possible execution. Python numbers are exact: \<^verbatim>\<open>float\<close> values are rationals, and time
  is a clock that only the scheduler advances.
\<close>

subsection \<open>Values\<close>

definition BUFFER_SIZE :: nat where
  "BUFFER_SIZE = 8"

datatype error =
    StopIteration      \<comment> \<open>\<^verbatim>\<open>next\<close> on an exhausted iterator\<close>
  | Empty              \<comment> \<open>\<^verbatim>\<open>queue.Empty\<close>: \<^verbatim>\<open>get(timeout=10)\<close> expired\<close>
  | ValueError         \<comment> \<open>\<^verbatim>\<open>time.sleep\<close> of a negative length\<close>
  | ZeroDivisionError
  | RuntimeError       \<comment> \<open>\<^verbatim>\<open>Thread.start\<close> twice, \<^verbatim>\<open>join\<close> before start\<close>
  | ModelError nat     \<comment> \<open>whatever the enhancement model raises\<close>

text \<open>\<^verbatim>\<open>int(x)\<close> of a float truncates towards zero; \<^verbatim>\<open>range(n)\<close> has \<open>nat n\<close> elements.\<close>

definition py_int :: "rat \<Rightarrow> int" where
  "py_int x = (if 0 \<le> x then \<lfloor>x\<rfloor> else \<lceil>x\<rceil>)"

definition range_len :: "int \<Rightarrow> nat" where
  "range_len n = nat n"

text \<open>
  An audio chunk is a numpy array: an element type and the sample values.
  \<^verbatim>\<open>astype\<close> returns an equal array when the element type is already the requested one
  and converts every sample otherwise; \<^verbatim>\<open>tostring\<close> gives the raw bytes, which the
  element type and the values determine.
\<close>

datatype dtype = Float32 | Float64

record ndarray =
  dtype :: dtype
  samples :: "rat list"

type_synonym buffer = "dtype \<times> rat list"

definition astype :: "(dtype \<Rightarrow> rat \<Rightarrow> rat) \<Rightarrow> dtype \<Rightarrow> ndarray \<Rightarrow> ndarray" where
  "astype cast t a =
     (if dtype a = t then a else \<lparr>dtype = t, samples = map (cast t) (samples a)\<rparr>)"

definition tostring :: "ndarray \<Rightarrow> buffer" where
  "tostring a = (dtype a, samples a)"

text \<open>
  The external collaborators, as functions: the image resize of lines 101-107, the
  SavedModel call of line 83, what \<^verbatim>\<open>interpreter.invoke\<close> computes from the input
  tensor, the clip and squeeze of lines 72-73 and 86, the display transform of lines
  152-153 and numpy's element conversion.
\<close>

record 'f ext =
  resize :: "'f \<Rightarrow> 'f"
  saved_model_call :: "'f \<Rightarrow> error + 'f"
  tflite_invoke :: "'f \<Rightarrow> error + 'f"
  squeeze_clip :: "'f \<Rightarrow> 'f"
  make_surface :: "'f \<Rightarrow> 'f"
  cast :: "dtype \<Rightarrow> rat \<Rightarrow> rat"

subsection \<open>Control points and observable events\<close>

text \<open>One enhancement call of the pool, for one frame.\<close>

datatype 'f task =
    T_Saved 'f         \<comment> \<open>about to run \<^verbatim>\<open>saved_model_super_resolve(frame)\<close>\<close>
  | T_Set 'f           \<comment> \<open>line 69: about to \<^verbatim>\<open>set_tensor\<close>\<close>
  | T_Invoke           \<comment> \<open>line 70: about to \<^verbatim>\<open>invoke\<close>\<close>
  | T_Get              \<comment> \<open>lines 71-73: about to \<^verbatim>\<open>get_tensor\<close>\<close>
  | T_Done 'f
  | T_Failed error

datatype 'f main_pc =
    M_Acquire1                          \<comment> \<open>line 165\<close>
  | M_Set1                              \<comment> \<open>lines 166-167, lock held\<close>
  | M_StartAudio                        \<comment> \<open>line 168\<close>
  | M_StartVideo                        \<comment> \<open>line 169\<close>
  | M_For nat                           \<comment> \<open>line 170, with the index of the next iteration\<close>
  | M_Pool nat ndarray                  \<comment> \<open>line 115, waiting for \<^verbatim>\<open>pool.map\<close>\<close>
  | M_PutAudio nat ndarray "'f list"    \<comment> \<open>line 126\<close>
  | M_PutVideo nat "'f list"            \<comment> \<open>line 127\<close>
  | M_Sleep nat rat                     \<comment> \<open>line 173, asleep until the given time\<close>
  | M_Acquire2                          \<comment> \<open>line 174\<close>
  | M_Set2                              \<comment> \<open>lines 175-176, lock held\<close>
  | M_JoinAudio                         \<comment> \<open>line 177\<close>
  | M_JoinVideo                         \<comment> \<open>line 178\<close>
  | M_Returned
  | M_Raised error

datatype audio_pc =
    A_NotStarted
  | A_Wait             \<comment> \<open>line 134\<close>
  | A_While            \<comment> \<open>line 136\<close>
  | A_Get rat          \<comment> \<open>line 137, blocked in \<^verbatim>\<open>get\<close> until the given deadline\<close>
  | A_Write ndarray    \<comment> \<open>line 138\<close>
  | A_Exited
  | A_Raised error

datatype 'f video_pc =
    V_NotStarted
  | V_Wait             \<comment> \<open>line 147\<close>
  | V_While            \<comment> \<open>lines 149-150\<close>
  | V_Get rat          \<comment> \<open>line 151, blocked in \<^verbatim>\<open>get\<close> until the given deadline\<close>
  | V_For "'f list"    \<comment> \<open>line 151, the frames of the batch not yet shown\<close>
  | V_Pace "'f list"   \<comment> \<open>line 157, about to call \<^verbatim>\<open>time.sleep\<close>\<close>
  | V_Sleep rat "'f list"  \<comment> \<open>line 157, asleep until the given time\<close>
  | V_Exited
  | V_Raised error

text \<open>What the threads do to the queues, the sinks and the run flag, in order.\<close>

datatype 'f event =
    LogFetching               \<comment> \<open>line 171, once per iteration of the producer\<close>
  | AudioPut ndarray          \<comment> \<open>line 126\<close>
  | VideoPut "'f list"        \<comment> \<open>line 127\<close>
  | AudioGet ndarray          \<comment> \<open>line 137\<close>
  | AudioWrite buffer         \<comment> \<open>line 138\<close>
  | VideoGet "'f list"        \<comment> \<open>line 151\<close>
  | Present 'f                \<comment> \<open>lines 152-156\<close>
  | Sleep rat                 \<comment> \<open>line 157\<close>
  | RunningSet                \<comment> \<open>the assignment of lines 167 and 176\<close>

subsection \<open>The player object and the state of its threads\<close>

record 'f player =
  fps :: rat                          \<comment> \<open>\<^verbatim>\<open>self.video.fps\<close>\<close>
  duration :: rat                     \<comment> \<open>\<^verbatim>\<open>self.video.duration\<close>\<close>
  tolerance :: rat
  running :: bool
  interpreter :: bool                 \<comment> \<open>\<^verbatim>\<open>self.interpreter\<close> is set\<close>
  saved_model :: bool                 \<comment> \<open>\<^verbatim>\<open>self.saved_model\<close> is set\<close>
  input_tensor :: "'f option"         \<comment> \<open>the interpreter's input tensor\<close>
  output_tensor :: "'f option"        \<comment> \<open>the interpreter's output tensor\<close>
  lock :: bool                        \<comment> \<open>\<^verbatim>\<open>self.lock\<close> is held\<close>
  video_iterator :: "'f list"
  audio_iterator :: "ndarray list"
  video_queue :: "'f list list"
  audio_queue :: "ndarray list"
  main_thread :: "'f main_pc"
  audio_thread :: audio_pc
  video_thread :: "'f video_pc"
  pool :: "'f task list"              \<comment> \<open>the calls of the current \<^verbatim>\<open>pool.map\<close>\<close>
  pool_error :: "error option"        \<comment> \<open>the first exception a call of it raised\<close>
  clock :: rat
  trace :: "'f event list"

text \<open>
  What \<^verbatim>\<open>editor.VideoFileClip(videofile)\<close> gives the player: the frame rate and the
  duration of the clip, and what its frame and audio-chunk iterators will yield.
\<close>

record 'f videofile =
  file_fps :: rat
  file_duration :: rat
  file_frames :: "'f list"
  file_chunks :: "ndarray list"

text \<open>
  \<^verbatim>\<open>Player.__init__\<close>; the two flags say whether the \<^verbatim>\<open>tflite\<close> and
  \<^verbatim>\<open>saved_model\<close> arguments are non-empty.
\<close>

definition Player_init :: "'f videofile \<Rightarrow> bool \<Rightarrow> bool \<Rightarrow> 'f player" where
  "Player_init videofile tflite savedmodel =
     \<lparr>fps = file_fps videofile, duration = file_duration videofile, tolerance = 9 / 4,
      running = False, interpreter = tflite, saved_model = savedmodel,
      input_tensor = None, output_tensor = None, lock = False,
      video_iterator = file_frames videofile, audio_iterator = file_chunks videofile,
      video_queue = [], audio_queue = [],
      main_thread = M_Acquire1, audio_thread = A_NotStarted, video_thread = V_NotStarted,
      pool = [], pool_error = None, clock = 0, trace = []\<rparr>"

definition emit :: "'f event \<Rightarrow> 'f player \<Rightarrow> 'f player" where
  "emit e s = s\<lparr>trace := trace s @ [e]\<rparr>"

definition raise :: "error \<Rightarrow> 'f player \<Rightarrow> 'f player" where
  "raise e s = s\<lparr>main_thread := M_Raised e\<rparr>"

subsection \<open>The enhancement calls\<close>

text \<open>
  \<^verbatim>\<open>saved_model_super_resolve\<close>: one call, which touches no attribute of the player
  but reads \<^verbatim>\<open>self.saved_model\<close>.
\<close>

definition saved_model_super_resolve :: "'f ext \<Rightarrow> bool \<Rightarrow> 'f \<Rightarrow> 'f task" where
  "saved_model_super_resolve X has_model frame =
     (if has_model
      then (case saved_model_call X frame of
              Inl e \<Rightarrow> T_Failed e
            | Inr frame' \<Rightarrow> T_Done (squeeze_clip X frame'))
      else T_Done (squeeze_clip X frame))"

text \<open>
  \<^verbatim>\<open>tflite_super_resolve\<close>: three calls on the one interpreter of the player, each a
  step of its own. A tensor that was never written reads as an error, which no call
  reaches: its own \<^verbatim>\<open>set_tensor\<close> and \<^verbatim>\<open>invoke\<close> come first.
\<close>

fun tflite_super_resolve ::
  "'f ext \<Rightarrow> 'f option \<times> 'f option \<Rightarrow> 'f task \<Rightarrow> ('f option \<times> 'f option) \<times> 'f task" where
  "tflite_super_resolve X (tin, tout) (T_Set frame) = ((Some frame, tout), T_Invoke)"
| "tflite_super_resolve X (tin, tout) T_Invoke =
     (case tin of
        None \<Rightarrow> ((tin, tout), T_Failed ValueError)
      | Some x \<Rightarrow>
          (case tflite_invoke X x of
             Inl e \<Rightarrow> ((tin, tout), T_Failed e)
           | Inr y \<Rightarrow> ((tin, Some y), T_Get)))"
| "tflite_super_resolve X (tin, tout) T_Get =
     (case tout of
        None \<Rightarrow> ((tin, tout), T_Failed ValueError)
      | Some y \<Rightarrow> ((tin, tout), T_Done (squeeze_clip X y)))"
| "tflite_super_resolve X (tin, tout) t = ((tin, tout), t)"

fun finished :: "'f task \<Rightarrow> bool" where
  "finished (T_Done f) = True"
| "finished (T_Failed e) = True"
| "finished t = False"

fun outcome :: "'f task \<Rightarrow> 'f option" where
  "outcome (T_Done f) = Some f"
| "outcome t = None"

fun failure :: "'f task \<Rightarrow> error option" where
  "failure (T_Failed e) = Some e"
| "failure t = None"

text \<open>One step of the pool's call number \<open>k\<close>; the first exception raised is kept.\<close>

definition task_step ::
  "'f ext \<Rightarrow> bool \<Rightarrow> 'f option \<times> 'f option \<Rightarrow> 'f task \<Rightarrow> ('f option \<times> 'f option) \<times> 'f task" where
  "task_step X has_model tensors t =
     (case t of
        T_Saved frame \<Rightarrow> (tensors, saved_model_super_resolve X has_model frame)
      | _ \<Rightarrow> tflite_super_resolve X tensors t)"

definition worker :: "'f ext \<Rightarrow> nat \<Rightarrow> 'f player \<Rightarrow> 'f player" where
  "worker X k s =
     (if k < length (pool s) \<and> \<not> finished (pool s ! k)
      then (case task_step X (saved_model s) (input_tensor s, output_tensor s) (pool s ! k) of
              ((tin, tout), t') \<Rightarrow>
                s\<lparr>input_tensor := tin, output_tensor := tout,
                  pool := (pool s)[k := t'],
                  pool_error := (case pool_error s of Some e \<Rightarrow> Some e | None \<Rightarrow> failure t')\<rparr>)
      else s)"

subsection \<open>The producer: \<^verbatim>\<open>video_second\<close>, \<^verbatim>\<open>fetch_video\<close>, \<^verbatim>\<open>run\<close>\<close>

text \<open>
  The loop of lines 97-107: \<open>k\<close> more frames are pulled and resized, each appended to
  \<^verbatim>\<open>frames\<close>. The second component is what is left of the iterator.
\<close>

fun fetch_frames ::
  "('f \<Rightarrow> 'f) \<Rightarrow> nat \<Rightarrow> 'f list \<Rightarrow> 'f list \<Rightarrow> (error + 'f list) \<times> 'f list" where
  "fetch_frames rs 0 it frames = (Inr frames, it)"
| "fetch_frames rs (Suc k) [] frames = (Inl StopIteration, [])"
| "fetch_frames rs (Suc k) (frame # it) frames = fetch_frames rs k it (frames @ [rs frame])"

text \<open>Lines 109-112: which function the pool maps over the frames.\<close>

definition resolution_fn :: "'f player \<Rightarrow> 'f \<Rightarrow> 'f task" where
  "resolution_fn s = (if interpreter s \<and> \<not> saved_model s then T_Set else T_Saved)"

text \<open>\<^verbatim>\<open>video_second\<close> up to the submission of the frames to the pool (lines 93-115).\<close>

definition video_second :: "'f ext \<Rightarrow> nat \<Rightarrow> ndarray \<Rightarrow> 'f player \<Rightarrow> 'f player" where
  "video_second X i audio s =
     (case fetch_frames (resize X) (range_len (py_int (fps s))) (video_iterator s) [] of
        (Inl e, it) \<Rightarrow> raise e (s\<lparr>video_iterator := it\<rparr>)
      | (Inr frames, it) \<Rightarrow>
          s\<lparr>video_iterator := it, pool := map (resolution_fn s) frames, pool_error := None,
            main_thread := M_Pool i audio\<rparr>)"

text \<open>
  \<^verbatim>\<open>pool.map\<close> returning (lines 115-117): it raises the first exception of a call,
  and otherwise returns the results in the order of the calls once all are done.
\<close>

definition video_second_return :: "nat \<Rightarrow> ndarray \<Rightarrow> 'f player \<Rightarrow> 'f player" where
  "video_second_return i audio s =
     (case pool_error s of
        Some e \<Rightarrow> raise e s
      | None \<Rightarrow>
          (case those (map outcome (pool s)) of
             Some frames \<Rightarrow> s\<lparr>main_thread := M_PutAudio i audio frames\<rparr>
           | None \<Rightarrow> s))"

text \<open>\<^verbatim>\<open>fetch_video\<close>, line 124 and the call of line 125.\<close>

definition fetch_video :: "'f ext \<Rightarrow> nat \<Rightarrow> 'f player \<Rightarrow> 'f player" where
  "fetch_video X i s =
     (case audio_iterator s of
        [] \<Rightarrow> raise StopIteration s
      | audio # rest \<Rightarrow> video_second X i audio (s\<lparr>audio_iterator := rest\<rparr>))"

fun terminated_audio :: "audio_pc \<Rightarrow> bool" where
  "terminated_audio A_Exited = True"
| "terminated_audio (A_Raised e) = True"
| "terminated_audio pc = False"

fun terminated_video :: "'f video_pc \<Rightarrow> bool" where
  "terminated_video V_Exited = True"
| "terminated_video (V_Raised e) = True"
| "terminated_video pc = False"

text \<open>The guarded assignment of lines 166-167 and 175-176, with the release of the lock.\<close>

definition set_running :: "'f player \<Rightarrow> 'f player" where
  "set_running s =
     (if \<not> running s then emit RunningSet (s\<lparr>running := True\<rparr>) else s)\<lparr>lock := False\<rparr>"

definition run :: "'f ext \<Rightarrow> 'f player \<Rightarrow> 'f player" where
  "run X s =
     (case main_thread s of
        M_Acquire1 \<Rightarrow> (if lock s then s else s\<lparr>lock := True, main_thread := M_Set1\<rparr>)
      | M_Set1 \<Rightarrow> (set_running s)\<lparr>main_thread := M_StartAudio\<rparr>
      | M_StartAudio \<Rightarrow>
          (if audio_thread s = A_NotStarted
           then s\<lparr>audio_thread := A_Wait, main_thread := M_StartVideo\<rparr>
           else raise RuntimeError s)
      | M_StartVideo \<Rightarrow>
          (if video_thread s = V_NotStarted
           then s\<lparr>video_thread := V_Wait, main_thread := M_For 0\<rparr>
           else raise RuntimeError s)
      | M_For i \<Rightarrow>
          (if i < range_len (py_int (duration s))
           then fetch_video X i (emit LogFetching s)
           else s\<lparr>main_thread := M_Acquire2\<rparr>)
      | M_Pool i audio \<Rightarrow> video_second_return i audio s
      | M_PutAudio i audio video \<Rightarrow>
          (emit (AudioPut audio) s)
            \<lparr>audio_queue := audio_queue s @ [audio], main_thread := M_PutVideo i video\<rparr>
      | M_PutVideo i video \<Rightarrow>
          (emit (VideoPut video) s)
            \<lparr>video_queue := video_queue s @ [video], main_thread := M_Sleep i (clock s + 1 / 10)\<rparr>
      | M_Sleep i t \<Rightarrow> (if t \<le> clock s then s\<lparr>main_thread := M_For (Suc i)\<rparr> else s)
      | M_Acquire2 \<Rightarrow> (if lock s then s else s\<lparr>lock := True, main_thread := M_Set2\<rparr>)
      | M_Set2 \<Rightarrow> (set_running s)\<lparr>main_thread := M_JoinAudio\<rparr>
      | M_JoinAudio \<Rightarrow>
          (if audio_thread s = A_NotStarted then raise RuntimeError s
           else if terminated_audio (audio_thread s) then s\<lparr>main_thread := M_JoinVideo\<rparr>
           else s)
      | M_JoinVideo \<Rightarrow>
          (if video_thread s = V_NotStarted then raise RuntimeError s
           else if terminated_video (video_thread s) then s\<lparr>main_thread := M_Returned\<rparr>
           else s)
      | M_Returned \<Rightarrow> s
      | M_Raised e \<Rightarrow> s)"

subsection \<open>The consumers\<close>

definition write_audio_stream :: "'f ext \<Rightarrow> 'f player \<Rightarrow> 'f player" where
  "write_audio_stream X s =
     (case audio_thread s of
        A_NotStarted \<Rightarrow> s
      | A_Wait \<Rightarrow>
          (if length (audio_queue s) < BUFFER_SIZE then s else s\<lparr>audio_thread := A_While\<rparr>)
      | A_While \<Rightarrow>
          (if running s then s\<lparr>audio_thread := A_Get (clock s + 10)\<rparr>
           else s\<lparr>audio_thread := A_Exited\<rparr>)
      | A_Get deadline \<Rightarrow>
          (case audio_queue s of
             audio # rest \<Rightarrow>
               (emit (AudioGet audio) s)\<lparr>audio_queue := rest, audio_thread := A_Write audio\<rparr>
           | [] \<Rightarrow> (if deadline \<le> clock s then s\<lparr>audio_thread := A_Raised Empty\<rparr> else s))
      | A_Write audio \<Rightarrow>
          (emit (AudioWrite (tostring (astype (cast X) Float32 audio))) s)
            \<lparr>audio_thread := A_While\<rparr>
      | A_Exited \<Rightarrow> s
      | A_Raised e \<Rightarrow> s)"

text \<open>
  The argument of \<^verbatim>\<open>time.sleep\<close> in line 157. The division raises for a frame rate
  of zero, and \<^verbatim>\<open>time.sleep\<close> raises for a negative length.
\<close>

definition frame_sleep :: "'f player \<Rightarrow> error + rat" where
  "frame_sleep s =
     (if fps s = 0 then Inl ZeroDivisionError
      else let d = (1000 / fps s - tolerance s) / 1000
           in if d < 0 then Inl ValueError else Inr d)"

definition write_video_stream :: "'f ext \<Rightarrow> 'f player \<Rightarrow> 'f player" where
  "write_video_stream X s =
     (case video_thread s of
        V_NotStarted \<Rightarrow> s
      | V_Wait \<Rightarrow>
          (if length (video_queue s) < BUFFER_SIZE then s else s\<lparr>video_thread := V_While\<rparr>)
      | V_While \<Rightarrow>
          (if running s then s\<lparr>video_thread := V_Get (clock s + 10)\<rparr>
           else s\<lparr>video_thread := V_Exited\<rparr>)
      | V_Get deadline \<Rightarrow>
          (case video_queue s of
             video # rest \<Rightarrow>
               (emit (VideoGet video) s)\<lparr>video_queue := rest, video_thread := V_For video\<rparr>
           | [] \<Rightarrow> (if deadline \<le> clock s then s\<lparr>video_thread := V_Raised Empty\<rparr> else s))
      | V_For frames \<Rightarrow>
          (case frames of
             [] \<Rightarrow> s\<lparr>video_thread := V_While\<rparr>
           | video_frame # rest \<Rightarrow>
               (emit (Present (make_surface X video_frame)) s)\<lparr>video_thread := V_Pace rest\<rparr>)
      | V_Pace rest \<Rightarrow>
          (case frame_sleep s of
             Inl e \<Rightarrow> s\<lparr>video_thread := V_Raised e\<rparr>
           | Inr d \<Rightarrow> (emit (Sleep d) s)\<lparr>video_thread := V_Sleep (clock s + d) rest\<rparr>)
      | V_Sleep t rest \<Rightarrow> (if t \<le> clock s then s\<lparr>video_thread := V_For rest\<rparr> else s)
      | V_Exited \<Rightarrow> s
      | V_Raised e \<Rightarrow> s)"

subsection \<open>Schedules\<close>

datatype sched =
    Main           \<comment> \<open>the caller of \<^verbatim>\<open>run\<close> takes a step\<close>
  | Worker nat     \<comment> \<open>the pool's call for frame \<open>k\<close> takes a step\<close>
  | Audio          \<comment> \<open>\<^verbatim>\<open>write_audio_stream\<close> takes a step\<close>
  | Video          \<comment> \<open>\<^verbatim>\<open>write_video_stream\<close> takes a step\<close>
  | Elapse rat     \<comment> \<open>time passes\<close>

fun step :: "'f ext \<Rightarrow> sched \<Rightarrow> 'f player \<Rightarrow> 'f player" where
  "step X Main s = run X s"
| "step X (Worker k) s = worker X k s"
| "step X Audio s = write_audio_stream X s"
| "step X Video s = write_video_stream X s"
| "step X (Elapse d) s = s\<lparr>clock := clock s + max 0 d\<rparr>"

fun exec :: "'f ext \<Rightarrow> sched list \<Rightarrow> 'f player \<Rightarrow> 'f player" where
  "exec X [] s = s"
| "exec X (a # as) s = exec X as (step X a s)"

text \<open>
  The state of a playback session after its threads have taken the steps of a schedule.
\<close>

definition session ::
  "'f ext \<Rightarrow> 'f videofile \<Rightarrow> bool \<Rightarrow> bool \<Rightarrow> sched list \<Rightarrow> 'f player" where
  "session X videofile tflite savedmodel sched =
     exec X sched (Player_init videofile tflite savedmodel)"

subsection \<open>What a trace shows\<close>

fun audio_put_of :: "'f event \<Rightarrow> ndarray list" where
  "audio_put_of (AudioPut a) = [a]"
| "audio_put_of e = []"

fun video_put_of :: "'f event \<Rightarrow> 'f list list" where
  "video_put_of (VideoPut v) = [v]"
| "video_put_of e = []"

fun audio_get_of :: "'f event \<Rightarrow> ndarray list" where
  "audio_get_of (AudioGet a) = [a]"
| "audio_get_of e = []"

fun video_get_of :: "'f event \<Rightarrow> 'f list list" where
  "video_get_of (VideoGet v) = [v]"
| "video_get_of e = []"

fun audio_write_of :: "'f event \<Rightarrow> buffer list" where
  "audio_write_of (AudioWrite b) = [b]"
| "audio_write_of e = []"

fun present_of :: "'f event \<Rightarrow> 'f list" where
  "present_of (Present f) = [f]"
| "present_of e = []"

fun run_set_of :: "'f event \<Rightarrow> unit list" where
  "run_set_of RunningSet = [()]"
| "run_set_of e = []"

text \<open>The chunks and batches enqueued and dequeued, in order.\<close>

definition audio_puts :: "'f event list \<Rightarrow> ndarray list" where
  "audio_puts tr = concat (map audio_put_of tr)"

definition video_puts :: "'f event list \<Rightarrow> 'f list list" where
  "video_puts tr = concat (map video_put_of tr)"

definition audio_gets :: "'f event list \<Rightarrow> ndarray list" where
  "audio_gets tr = concat (map audio_get_of tr)"

definition video_gets :: "'f event list \<Rightarrow> 'f list list" where
  "video_gets tr = concat (map video_get_of tr)"

text \<open>What the two sinks received, in order, and how often the run flag was assigned.\<close>

definition audio_writes :: "'f event list \<Rightarrow> buffer list" where
  "audio_writes tr = concat (map audio_write_of tr)"

definition presents :: "'f event list \<Rightarrow> 'f list" where
  "presents tr = concat (map present_of tr)"

definition running_sets :: "'f event list \<Rightarrow> nat" where
  "running_sets tr = length (concat (map run_set_of tr))"

text \<open>The events of each consumer: a dequeue or a call of its sink.\<close>

fun audio_consume :: "'f event \<Rightarrow> bool" where
  "audio_consume (AudioGet a) = True"
| "audio_consume (AudioWrite b) = True"
| "audio_consume e = False"

fun video_consume :: "'f event \<Rightarrow> bool" where
  "video_consume (VideoGet v) = True"
| "video_consume (Present f) = True"
| "video_consume e = False"

definition audio_events :: "'f event list \<Rightarrow> 'f event list" where
  "audio_events tr = filter audio_consume tr"

definition video_events :: "'f event list \<Rightarrow> 'f event list" where
  "video_events tr = filter video_consume tr"

text \<open>
  The events of the producer, by kind: an iteration of the loop of \<^verbatim>\<open>run\<close> begins, a
  chunk is enqueued, a batch is enqueued. \<open>pattern k\<close> is what \<open>k\<close> whole iterations show.
\<close>

datatype pkind = Fetch | APut | VPut

fun pkind_of :: "'f event \<Rightarrow> pkind list" where
  "pkind_of LogFetching = [Fetch]"
| "pkind_of (AudioPut a) = [APut]"
| "pkind_of (VideoPut v) = [VPut]"
| "pkind_of e = []"

definition producer :: "'f event list \<Rightarrow> pkind list" where
  "producer tr = concat (map pkind_of tr)"

definition pattern :: "nat \<Rightarrow> pkind list" where
  "pattern k = concat (replicate k [Fetch, APut, VPut])"


text \<open>
  What the video consumer does to the display and the clock, in order, and what a
  consumer that sleeps \<open>d\<close> seconds after every frame does for the frames \<open>fs\<close>.
\<close>

fun display_of :: "'f event \<Rightarrow> 'f event list" where
  "display_of (Present f) = [Present f]"
| "display_of (Sleep d) = [Sleep d]"
| "display_of e = []"

definition display :: "'f event list \<Rightarrow> 'f event list" where
  "display tr = concat (map display_of tr)"

definition pacing :: "rat \<Rightarrow> 'f list \<Rightarrow> 'f event list" where
  "pacing d fs = concat (map (\<lambda>f. [Present f, Sleep d]) fs)"

definition frame_interval :: "rat \<Rightarrow> rat" where
  "frame_interval video_fps = (1000 / video_fps - 9 / 4) / 1000"

text \<open>What line 138 hands to the audio device for a chunk.\<close>

definition to_device :: "'f ext \<Rightarrow> ndarray \<Rightarrow> buffer" where
  "to_device X audio = tostring (astype (cast X) Float32 audio)"

subsection \<open>Invariants of the reachable states\<close>

text \<open>The producer's events, at each control point of \<^verbatim>\<open>run\<close>; \<open>n\<close> is the loop bound.\<close>

fun producer_at :: "nat \<Rightarrow> 'f main_pc \<Rightarrow> pkind list \<Rightarrow> bool" where
  "producer_at n (M_For i) p = (i \<le> n \<and> p = pattern i)"
| "producer_at n (M_Pool i a) p = (i < n \<and> p = pattern i @ [Fetch])"
| "producer_at n (M_PutAudio i a v) p = (i < n \<and> p = pattern i @ [Fetch])"
| "producer_at n (M_PutVideo i v) p = (i < n \<and> p = pattern i @ [Fetch, APut])"
| "producer_at n (M_Sleep i t) p = (i < n \<and> p = pattern (Suc i))"
| "producer_at n M_Acquire1 p = (p = [])"
| "producer_at n M_Set1 p = (p = [])"
| "producer_at n M_StartAudio p = (p = [])"
| "producer_at n M_StartVideo p = (p = [])"
| "producer_at n (M_Raised e) p =
     (\<exists>i. (i \<le> n \<and> p = pattern i) \<or> (i < n \<and> p = pattern i @ [Fetch]))"
| "producer_at n pc p = (p = pattern n)"

definition producer_inv :: "'f player \<Rightarrow> bool" where
  "producer_inv s =
     producer_at (range_len (py_int (duration s))) (main_thread s) (producer (trace s))"

text \<open>Each queue holds what was put and not yet taken, in the order of the puts.\<close>

definition fifo_inv :: "'f player \<Rightarrow> bool" where
  "fifo_inv s \<longleftrightarrow>
     audio_puts (trace s) = audio_gets (trace s) @ audio_queue s \<and>
     video_puts (trace s) = video_gets (trace s) @ video_queue s"

text \<open>A consumer past its first loop has seen \<^verbatim>\<open>BUFFER_SIZE\<close> items in its queue.\<close>

fun audio_draining :: "audio_pc \<Rightarrow> bool" where
  "audio_draining A_NotStarted = False"
| "audio_draining A_Wait = False"
| "audio_draining pc = True"

fun video_draining :: "'f video_pc \<Rightarrow> bool" where
  "video_draining V_NotStarted = False"
| "video_draining V_Wait = False"
| "video_draining pc = True"

definition gated :: "('e \<Rightarrow> bool) \<Rightarrow> ('e list \<Rightarrow> nat) \<Rightarrow> 'e list \<Rightarrow> bool" where
  "gated consume enqueued tr \<longleftrightarrow>
     (\<forall>i<length tr. consume (tr ! i) \<longrightarrow> BUFFER_SIZE \<le> enqueued (take i tr))"

definition gate_inv :: "'f player \<Rightarrow> bool" where
  "gate_inv s \<longleftrightarrow>
     (audio_draining (audio_thread s) \<longrightarrow> BUFFER_SIZE \<le> length (audio_puts (trace s))) \<and>
     (video_draining (video_thread s) \<longrightarrow> BUFFER_SIZE \<le> length (video_puts (trace s))) \<and>
     gated audio_consume (\<lambda>tr. length (audio_puts tr)) (trace s) \<and>
     gated video_consume (\<lambda>tr. length (video_puts tr)) (trace s)"

text \<open>The batch in the making and every batch enqueued have \<open>m\<close> frames.\<close>

fun batch_at :: "nat \<Rightarrow> 'f main_pc \<Rightarrow> 'f task list \<Rightarrow> bool" where
  "batch_at m (M_Pool i a) ts = (length ts = m)"
| "batch_at m (M_PutAudio i a v) ts = (length v = m)"
| "batch_at m (M_PutVideo i v) ts = (length v = m)"
| "batch_at m pc ts = True"

definition batch_inv :: "'f player \<Rightarrow> bool" where
  "batch_inv s \<longleftrightarrow>
     batch_at (range_len (py_int (fps s))) (main_thread s) (pool s) \<and>
     (\<forall>b \<in> set (video_puts (trace s)). length b = range_len (py_int (fps s)))"

text \<open>Audio puts run at most one ahead of video puts, in every prefix of the trace.\<close>

fun video_owed :: "'f main_pc \<Rightarrow> nat" where
  "video_owed (M_PutVideo i v) = 1"
| "video_owed pc = 0"

definition balanced :: "'f event list \<Rightarrow> bool" where
  "balanced tr \<longleftrightarrow>
     (\<forall>i. length (video_puts (take i tr)) \<le> length (audio_puts (take i tr)) \<and>
          length (audio_puts (take i tr)) \<le> Suc (length (video_puts (take i tr))))"

definition order_inv :: "'f player \<Rightarrow> bool" where
  "order_inv s \<longleftrightarrow>
     length (audio_puts (trace s)) = length (video_puts (trace s)) + video_owed (main_thread s) \<and>
     balanced (trace s)"

text \<open>The attributes that no thread assigns after \<^verbatim>\<open>__init__\<close>.\<close>

definition config :: "'f player \<Rightarrow> rat \<times> rat \<times> rat \<times> bool \<times> bool" where
  "config s = (fps s, duration s, tolerance s, interpreter s, saved_model s)"

text \<open>The run flag and the lock, at each control point of \<^verbatim>\<open>run\<close>.\<close>

fun before_start :: "'f main_pc \<Rightarrow> bool" where
  "before_start M_Acquire1 = True"
| "before_start M_Set1 = True"
| "before_start pc = False"

fun holds_lock :: "'f main_pc \<Rightarrow> bool" where
  "holds_lock M_Set1 = True"
| "holds_lock M_Set2 = True"
| "holds_lock pc = False"

definition run_inv :: "'f player \<Rightarrow> bool" where
  "run_inv s \<longleftrightarrow>
     (running s \<longleftrightarrow> \<not> before_start (main_thread s)) \<and>
     (lock s \<longleftrightarrow> holds_lock (main_thread s)) \<and>
     running_sets (trace s) = (if running s then 1 else 0)"

text \<open>The deadline of a pending \<^verbatim>\<open>get\<close> is at most ten seconds away.\<close>

fun audio_deadline :: "audio_pc \<Rightarrow> rat option" where
  "audio_deadline (A_Get t) = Some t"
| "audio_deadline pc = None"

fun video_deadline :: "'f video_pc \<Rightarrow> rat option" where
  "video_deadline (V_Get t) = Some t"
| "video_deadline pc = None"

definition deadline_inv :: "'f player \<Rightarrow> bool" where
  "deadline_inv s \<longleftrightarrow>
     (\<forall>t. audio_deadline (audio_thread s) = Some t \<longrightarrow> t \<le> clock s + 10) \<and>
     (\<forall>t. video_deadline (video_thread s) = Some t \<longrightarrow> t \<le> clock s + 10)"

text \<open>A consumer that raised stays as it is, with the events it had.\<close>

definition audio_dead :: "error \<Rightarrow> 'f event list \<Rightarrow> 'f player \<Rightarrow> bool" where
  "audio_dead e evs s \<longleftrightarrow> audio_thread s = A_Raised e \<and> audio_events (trace s) = evs"

definition video_dead :: "error \<Rightarrow> 'f event list \<Rightarrow> 'f player \<Rightarrow> bool" where
  "video_dead e evs s \<longleftrightarrow> video_thread s = V_Raised e \<and> video_events (trace s) = evs"

text \<open>Every chunk taken is written converted, but for the one in hand.\<close>

fun in_hand :: "audio_pc \<Rightarrow> ndarray list" where
  "in_hand (A_Write a) = [a]"
| "in_hand pc = []"

definition written_inv :: "'f ext \<Rightarrow> 'f player \<Rightarrow> bool" where
  "written_inv X s \<longleftrightarrow>
     map (to_device X) (audio_gets (trace s)) =
       audio_writes (trace s) @ map (to_device X) (in_hand (audio_thread s))"

text \<open>A failed call of the pool is recorded; then \<^verbatim>\<open>pool.map\<close> can only raise.\<close>

definition pool_inv :: "'f player \<Rightarrow> bool" where
  "pool_inv s \<longleftrightarrow> (pool_error s = None \<longrightarrow> (\<forall>t \<in> set (pool s). failure t = None))"

fun doomed_at :: "'f main_pc \<Rightarrow> error option \<Rightarrow> bool" where
  "doomed_at (M_Pool i a) err = (err \<noteq> None)"
| "doomed_at (M_Raised e) err = True"
| "doomed_at pc err = False"

definition doomed :: "'f list list \<Rightarrow> 'f player \<Rightarrow> bool" where
  "doomed puts s \<longleftrightarrow>
     doomed_at (main_thread s) (pool_error s) \<and> video_puts (trace s) = puts"

text \<open>The frames shown are the frames of the batches taken, in order.\<close>

fun shown_at :: "('f \<Rightarrow> 'f) \<Rightarrow> 'f video_pc \<Rightarrow> 'f list \<Rightarrow> 'f list \<Rightarrow> bool" where
  "shown_at mk (V_For fs) ps gs = (ps @ map mk fs = gs)"
| "shown_at mk (V_Pace fs) ps gs = (ps @ map mk fs = gs)"
| "shown_at mk (V_Sleep t fs) ps gs = (ps @ map mk fs = gs)"
| "shown_at mk (V_Raised e) ps gs = prefix ps gs"
| "shown_at mk pc ps gs = (ps = gs)"

definition shown_inv :: "'f ext \<Rightarrow> 'f player \<Rightarrow> bool" where
  "shown_inv X s \<longleftrightarrow>
     shown_at (make_surface X) (video_thread s) (presents (trace s))
       (map (make_surface X) (concat (video_gets (trace s))))"

text \<open>
  The frame that \<^verbatim>\<open>video_second\<close> makes of a decoded frame on the SavedModel path, if
  the call returns one, and the decoded frames of second \<open>j\<close> at \<open>m\<close> frames per second.
\<close>

definition enhanced :: "'f ext \<Rightarrow> bool \<Rightarrow> 'f \<Rightarrow> 'f option" where
  "enhanced X has_model frame = outcome (saved_model_super_resolve X has_model (resize X frame))"

definition second_frames :: "nat \<Rightarrow> 'f list \<Rightarrow> nat \<Rightarrow> 'f list" where
  "second_frames m frames j = take m (drop (j * m) frames)"

text \<open>
  On that path every batch enqueued holds the enhancements of the frames of its second, in
  their order, and so does the pool while the batch is in the making.
\<close>

definition in_order :: "'f ext \<Rightarrow> bool \<Rightarrow> nat \<Rightarrow> 'f list \<Rightarrow> 'f list list \<Rightarrow> bool" where
  "in_order X sm m F puts \<longleftrightarrow>
     (\<forall>j<length puts. map Some (puts ! j) = map (enhanced X sm) (second_frames m F j))"

definition pool_in_order :: "'f ext \<Rightarrow> bool \<Rightarrow> 'f list \<Rightarrow> 'f task list \<Rightarrow> bool" where
  "pool_in_order X sm fs ts \<longleftrightarrow>
     length ts = length fs \<and>
     (\<forall>k<length ts. ts ! k = T_Saved (resize X (fs ! k)) \<or>
        ts ! k = saved_model_super_resolve X sm (resize X (fs ! k)))"

fun order_at ::
  "'f ext \<Rightarrow> bool \<Rightarrow> nat \<Rightarrow> 'f list \<Rightarrow> 'f main_pc \<Rightarrow> 'f list \<Rightarrow> 'f task list \<Rightarrow> nat \<Rightarrow> bool" where
  "order_at X sm m F M_Acquire1 it ts p = (p = 0 \<and> it = F)"
| "order_at X sm m F M_Set1 it ts p = (p = 0 \<and> it = F)"
| "order_at X sm m F M_StartAudio it ts p = (p = 0 \<and> it = F)"
| "order_at X sm m F M_StartVideo it ts p = (p = 0 \<and> it = F)"
| "order_at X sm m F (M_For i) it ts p = (p = i \<and> it = drop (i * m) F)"
| "order_at X sm m F (M_Pool i a) it ts p =
     (p = i \<and> it = drop (Suc i * m) F \<and> pool_in_order X sm (second_frames m F i) ts)"
| "order_at X sm m F (M_PutAudio i a v) it ts p =
     (p = i \<and> it = drop (Suc i * m) F \<and>
      map Some v = map (enhanced X sm) (second_frames m F i))"
| "order_at X sm m F (M_PutVideo i v) it ts p =
     (p = i \<and> it = drop (Suc i * m) F \<and>
      map Some v = map (enhanced X sm) (second_frames m F i))"
| "order_at X sm m F (M_Sleep i t) it ts p = (p = Suc i \<and> it = drop (Suc i * m) F)"
| "order_at X sm m F pc it ts p = True"

definition enhanced_inv :: "'f ext \<Rightarrow> 'f list \<Rightarrow> 'f player \<Rightarrow> bool" where
  "enhanced_inv X F s \<longleftrightarrow>
     \<not> (interpreter s \<and> \<not> saved_model s) \<and>
     order_at X (saved_model s) (range_len (py_int (fps s))) F (main_thread s)
       (video_iterator s) (pool s) (length (video_puts (trace s))) \<and>
     in_order X (saved_model s) (range_len (py_int (fps s))) F (video_puts (trace s))"

text \<open>Every frame shown is followed by a sleep of the frame interval.\<close>

fun paced_at :: "rat \<Rightarrow> 'f video_pc \<Rightarrow> 'f list \<Rightarrow> 'f event list \<Rightarrow> bool" where
  "paced_at d (V_Pace fs) ps evs =
     (ps \<noteq> [] \<and> evs = pacing d (butlast ps) @ [Present (last ps)])"
| "paced_at d pc ps evs = (evs = pacing d ps)"

definition paced_inv :: "'f player \<Rightarrow> bool" where
  "paced_inv s \<longleftrightarrow>
     0 < fps s \<and> fps s \<le> 4000 / 9 \<and> tolerance s = 9 / 4 \<and>
     paced_at (frame_interval (fps s)) (video_thread s) (presents (trace s)) (display (trace s))"

subsection \<open>Sample sessions\<close>

text \<open>
  Frames are numbers. The sample SavedModel adds 100 to a frame and raises on frame 0;
  the sample interpreter multiplies its input tensor by 10.
\<close>

definition sample_ext :: "nat ext" where
  "sample_ext =
     \<lparr>resize = (\<lambda>x. x),
      saved_model_call = (\<lambda>x. if x = 0 then Inl (ModelError 0) else Inr (x + 100)),
      tflite_invoke = (\<lambda>x. Inr (10 * x)),
      squeeze_clip = (\<lambda>x. x), make_surface = (\<lambda>x. x), cast = (\<lambda>t x. x)\<rparr>"

definition chunk :: "dtype \<Rightarrow> nat \<Rightarrow> ndarray" where
  "chunk t n = \<lparr>dtype = t, samples = [of_nat n, 1 / 2]\<rparr>"

text \<open>
  The schedule of one producer iteration over \<open>m\<close> frames, run alone: the fetch, the
  pool's calls one after the other, the return of \<^verbatim>\<open>pool.map\<close>, the two puts, and the
  sleep of line 173. \<open>buffering k m\<close> starts \<^verbatim>\<open>run\<close> and runs \<open>k\<close> iterations.
\<close>

definition second :: "nat \<Rightarrow> sched list" where
  "second m = Main # map Worker [0..<m] @ [Main, Main, Main, Elapse (1 / 10), Main]"

definition buffering :: "nat \<Rightarrow> nat \<Rightarrow> sched list" where
  "buffering k m = [Main, Main, Main, Main] @ concat (replicate k (second m))"

text \<open>
  Eight seconds at one frame per second, with a SavedModel. The schedule buffers all
  eight seconds, ends the producer's loop, and lets each consumer pass its gate and handle
  its first item. The audio consumer then drains its queue and waits ten seconds in vain.
\<close>

definition sample_file :: "nat videofile" where
  "sample_file =
     \<lparr>file_fps = 1, file_duration = 8, file_frames = [1, 2, 3, 4, 5, 6, 7, 8],
      file_chunks = [chunk Float64 1, chunk Float32 2, chunk Float64 3, chunk Float64 4,
                     chunk Float64 5, chunk Float64 6, chunk Float64 7, chunk Float64 8]\<rparr>"

definition sample_schedule :: "sched list" where
  "sample_schedule =
     buffering 8 1 @ [Main, Main, Main] @ [Audio, Audio, Audio, Audio] @
     [Video, Video, Video, Video, Video, Elapse 1, Video, Video]"

definition sample_session :: "nat player" where
  "sample_session = session sample_ext sample_file False True sample_schedule"

definition starved_schedule :: "sched list" where
  "starved_schedule =
     sample_schedule @ concat (replicate 7 [Audio, Audio, Audio]) @ [Audio, Elapse 10]"

definition starved_session :: "nat player" where
  "starved_session = session sample_ext sample_file False True starved_schedule"

text \<open>
  Two seconds at two frames per second whose second frame is frame 0, on which the
  SavedModel raises: first up to the failing call, then up to the return of \<^verbatim>\<open>pool.map\<close>.
\<close>

definition bad_file :: "nat videofile" where
  "bad_file =
     \<lparr>file_fps = 2, file_duration = 2, file_frames = [1, 0, 3, 4],
      file_chunks = [chunk Float64 1, chunk Float64 2]\<rparr>"

definition failing_session :: "nat player" where
  "failing_session =
     session sample_ext bad_file False True [Main, Main, Main, Main, Main, Worker 1]"


text \<open>
  One second at two frames per second with only the TFLite interpreter: the pool's two
  calls run on two workers, and the second call writes the input tensor before the first
  call invokes the interpreter.
\<close>

definition two_frames :: "nat videofile" where
  "two_frames =
     \<lparr>file_fps = 2, file_duration = 1, file_frames = [1, 2],
      file_chunks = [chunk Float64 1, chunk Float64 2]\<rparr>"

definition race_schedule :: "sched list" where
  "race_schedule =
     [Main, Main, Main, Main, Main,
      Worker 0, Worker 1, Worker 0, Worker 0, Worker 1, Worker 1,
      Main, Main, Main]"

definition race_session :: "nat player" where
  "race_session = session sample_ext two_frames True False race_schedule"

text \<open>
  Eight seconds of a still picture at 500 frames per second, with no model: the producer
  buffers all eight seconds, then the video consumer takes five steps.
\<close>

definition fast_file :: "nat videofile" where
  "fast_file =
     \<lparr>file_fps = 500, file_duration = 8, file_frames = replicate (8 * 500) 1,
      file_chunks = replicate 8 (chunk Float64 1)\<rparr>"

definition fast_session :: "nat player" where
  "fast_session =
     session sample_ext fast_file False False
       (buffering 8 500 @ [Video, Video, Video, Video, Video])"

section \<open>Properties\<close>

subsection \<open>Schedules and arithmetic\<close>

lemma exec_append: "exec X (as @ bs) s = exec X bs (exec X as s)"
  by (induction as arbitrary: s) auto

lemma exec_invariant:
  assumes "P s" and "\<And>a s. P s \<Longrightarrow> P (step X a s)"
  shows "P (exec X as s)"
  using assms(1)
proof (induction as arbitrary: s)
  case Nil
  then show ?case by simp
next
  case (Cons a as)
  then show ?case by (simp add: assms(2))
qed

lemma range_len_py_int: "range_len (py_int x) = nat \<lfloor>x\<rfloor>"
proof (cases "0 \<le> x")
  case True
  then show ?thesis by (simp add: range_len_def py_int_def)
next
  case False
  then have "\<lceil>x\<rceil> \<le> 0" and "\<lfloor>x\<rfloor> \<le> 0"
    by (simp_all add: ceiling_le_iff floor_le_iff)
  with False show ?thesis by (simp add: range_len_def py_int_def)
qed

lemma py_int_nonneg: "0 \<le> x \<Longrightarrow> int (range_len (py_int x)) = py_int x"
  by (simp add: range_len_def py_int_def)

lemmas observe_defs = audio_puts_def video_puts_def audio_gets_def video_gets_def
  audio_writes_def presents_def

lemmas run_defs = run_def set_running_def fetch_video_def video_second_def
  video_second_return_def raise_def emit_def

subsection \<open>What the steps leave alone\<close>

lemma worker_keeps:
  "trace (worker X k s) = trace s" "main_thread (worker X k s) = main_thread s"
  "audio_thread (worker X k s) = audio_thread s" "video_thread (worker X k s) = video_thread s"
  "audio_queue (worker X k s) = audio_queue s" "video_queue (worker X k s) = video_queue s"
  "fps (worker X k s) = fps s" "duration (worker X k s) = duration s"
  "tolerance (worker X k s) = tolerance s" "running (worker X k s) = running s"
  "lock (worker X k s) = lock s" "clock (worker X k s) = clock s"
  "length (pool (worker X k s)) = length (pool s)"
  by (simp_all add: worker_def split: prod.splits)

lemma run_keeps:
  "audio_thread (run X s) = audio_thread s \<or>
     (audio_thread s = A_NotStarted \<and> audio_thread (run X s) = A_Wait)"
  "video_thread (run X s) = video_thread s \<or>
     (video_thread s = V_NotStarted \<and> video_thread (run X s) = V_Wait)"
  "clock (run X s) = clock s"
  by (cases "main_thread s";
      auto simp: run_defs split: list.splits sum.splits prod.splits option.splits)+

lemma run_consumer_events:
  "audio_gets (trace (run X s)) = audio_gets (trace s)"
  "audio_writes (trace (run X s)) = audio_writes (trace s)"
  "video_gets (trace (run X s)) = video_gets (trace s)"
  "presents (trace (run X s)) = presents (trace s)"
  by (cases "main_thread s";
      auto simp: run_defs observe_defs
        split: list.splits sum.splits prod.splits option.splits)+

lemma config_step: "config (step X a s) = config s"
proof (cases a)
  case Main
  show ?thesis unfolding Main
    by (cases "main_thread s")
      (auto simp: config_def run_defs split: list.splits sum.splits prod.splits option.splits)
next
  case (Worker k)
  show ?thesis unfolding Worker by (simp add: config_def worker_def split: prod.splits)
next
  case Audio
  show ?thesis unfolding Audio
    by (auto simp: config_def write_audio_stream_def emit_def split: audio_pc.splits list.splits)
next
  case Video
  show ?thesis unfolding Video
    by (auto simp: config_def write_video_stream_def emit_def
        split: video_pc.splits list.splits sum.splits)
next
  case (Elapse d)
  show ?thesis unfolding Elapse by (simp add: config_def)
qed

lemma config_exec: "config (exec X as s) = config s"
  by (induction as arbitrary: s) (simp_all add: config_step)

lemma session_config:
  "fps (session X clip tfl sm sched) = file_fps clip"
  "duration (session X clip tfl sm sched) = file_duration clip"
  "tolerance (session X clip tfl sm sched) = 9 / 4"
proof -
  have "config (session X clip tfl sm sched) = config (Player_init clip tfl sm)"
    by (simp add: session_def config_exec)
  then show "fps (session X clip tfl sm sched) = file_fps clip"
    and "duration (session X clip tfl sm sched) = file_duration clip"
    and "tolerance (session X clip tfl sm sched) = 9 / 4"
    by (simp_all add: config_def Player_init_def)
qed

lemma session_append:
  "session X clip tfl sm (sched @ later) = exec X later (session X clip tfl sm sched)"
  by (simp add: session_def exec_append)

subsection \<open>The producer's events\<close>

lemma pattern_0: "pattern 0 = []"
  by (simp add: pattern_def)

lemma pattern_Suc: "pattern (Suc i) = pattern i @ [Fetch, APut, VPut]"
  unfolding pattern_def
  by (induction i) auto

lemma pattern_add: "pattern (i + j) = pattern i @ pattern j"
  by (induction j) (simp_all add: pattern_0 pattern_Suc)

lemma length_pattern: "length (pattern i) = 3 * i"
  by (induction i) (simp_all add: pattern_0 pattern_Suc)

lemma producer_snoc: "producer (tr @ [e]) = producer tr @ pkind_of e"
  by (simp add: producer_def)

lemma producer_inv_step: "producer_inv s \<Longrightarrow> producer_inv (step X a s)"
proof (cases a)
  case Main
  assume "producer_inv s"
  then show ?thesis unfolding Main
    by (cases "main_thread s")
      (auto simp: producer_inv_def run_defs producer_snoc pattern_0 pattern_Suc
        split: list.splits sum.splits prod.splits option.splits if_splits)
next
  case (Worker k)
  assume "producer_inv s"
  then show ?thesis unfolding Worker by (simp add: producer_inv_def worker_keeps)
next
  case Audio
  assume "producer_inv s"
  then show ?thesis unfolding Audio
    by (auto simp: producer_inv_def write_audio_stream_def emit_def producer_snoc
        split: audio_pc.splits list.splits)
next
  case Video
  assume "producer_inv s"
  then show ?thesis unfolding Video
    by (auto simp: producer_inv_def write_video_stream_def emit_def producer_snoc
        split: video_pc.splits list.splits sum.splits)
next
  case (Elapse d)
  assume "producer_inv s"
  then show ?thesis unfolding Elapse by (simp add: producer_inv_def)
qed

lemma session_producer_inv: "producer_inv (session X clip tfl sm sched)"
  unfolding session_def
  by (rule exec_invariant)
    (simp_all add: producer_inv_step, simp add: producer_inv_def Player_init_def producer_def)

lemma pattern_prefix: "i \<le> n \<Longrightarrow> prefix (pattern i) (pattern n)"
  using pattern_add[of i "n - i"] by (auto simp: prefix_def)

lemma pattern_split:
  assumes "i < n"
  shows "pattern n = pattern i @ [Fetch, APut, VPut] @ pattern (n - Suc i)"
  using assms pattern_add[of "Suc i" "n - Suc i"] by (simp add: pattern_Suc)

lemma pattern_fetch_prefix:
  assumes "i < n"
  shows "prefix (pattern i @ [Fetch]) (pattern n)"
    and "prefix (pattern i @ [Fetch, APut]) (pattern n)"
  by (simp_all add: pattern_split[OF assms])

lemma producer_at_prefix: "producer_at n pc p \<Longrightarrow> prefix p (pattern n)"
  by (cases pc) (auto simp: pattern_prefix pattern_fetch_prefix)

subsection \<open>The queues\<close>

lemma fifo_inv_step: "fifo_inv s \<Longrightarrow> fifo_inv (step X a s)"
proof (cases a)
  case Main
  assume "fifo_inv s"
  then show ?thesis unfolding Main
    by (cases "main_thread s")
      (auto simp: fifo_inv_def run_defs observe_defs
        split: list.splits sum.splits prod.splits option.splits)
next
  case (Worker k)
  assume "fifo_inv s"
  then show ?thesis unfolding Worker by (simp add: fifo_inv_def worker_keeps)
next
  case Audio
  assume "fifo_inv s"
  then show ?thesis unfolding Audio
    by (auto simp: fifo_inv_def write_audio_stream_def emit_def observe_defs
        split: audio_pc.splits list.splits)
next
  case Video
  assume "fifo_inv s"
  then show ?thesis unfolding Video
    by (auto simp: fifo_inv_def write_video_stream_def emit_def observe_defs
        split: video_pc.splits list.splits sum.splits)
next
  case (Elapse d)
  assume "fifo_inv s"
  then show ?thesis unfolding Elapse by (simp add: fifo_inv_def)
qed

lemma session_fifo_inv: "fifo_inv (session X clip tfl sm sched)"
  unfolding session_def
  by (rule exec_invariant)
    (simp_all add: fifo_inv_step, simp add: fifo_inv_def Player_init_def observe_defs)

subsection \<open>The gate of the consumers\<close>

lemma gated_snoc:
  "gated c n (tr @ [e]) \<longleftrightarrow> gated c n tr \<and> (c e \<longrightarrow> BUFFER_SIZE \<le> n tr)"
proof
  assume g: "gated c n (tr @ [e])"
  have "gated c n tr"
    unfolding gated_def
  proof (intro allI impI)
    fix i assume i: "i < length tr" and ci: "c (tr ! i)"
    from g i ci have "BUFFER_SIZE \<le> n (take i (tr @ [e]))"
      unfolding gated_def by (auto simp: nth_append dest!: spec[where x=i])
    with i show "BUFFER_SIZE \<le> n (take i tr)" by simp
  qed
  moreover have "c e \<longrightarrow> BUFFER_SIZE \<le> n tr"
    using g unfolding gated_def by (auto dest!: spec[where x="length tr"])
  ultimately show "gated c n tr \<and> (c e \<longrightarrow> BUFFER_SIZE \<le> n tr)" by simp
next
  assume h: "gated c n tr \<and> (c e \<longrightarrow> BUFFER_SIZE \<le> n tr)"
  show "gated c n (tr @ [e])"
    unfolding gated_def
  proof (intro allI impI)
    fix i assume i: "i < length (tr @ [e])" and ci: "c ((tr @ [e]) ! i)"
    show "BUFFER_SIZE \<le> n (take i (tr @ [e]))"
    proof (cases "i < length tr")
      case True
      with h ci show ?thesis by (auto simp: gated_def nth_append)
    next
      case False
      with i have "i = length tr" by simp
      with h ci show ?thesis by simp
    qed
  qed
qed

lemma gate_inv_step:
  assumes "fifo_inv s" and "gate_inv s"
  shows "gate_inv (step X a s)"
proof (cases a)
  case Main
  from assms show ?thesis unfolding Main
    by (cases "main_thread s")
      (auto simp: gate_inv_def run_defs observe_defs gated_snoc
        split: list.splits sum.splits prod.splits option.splits)
next
  case (Worker k)
  from assms show ?thesis unfolding Worker by (simp add: gate_inv_def worker_keeps)
next
  case Audio
  from assms show ?thesis unfolding Audio
    by (cases "audio_thread s")
      (auto simp: gate_inv_def fifo_inv_def write_audio_stream_def emit_def observe_defs
        gated_snoc split: list.splits)
next
  case Video
  from assms show ?thesis unfolding Video
    by (cases "video_thread s")
      (auto simp: gate_inv_def fifo_inv_def write_video_stream_def emit_def observe_defs
        gated_snoc split: list.splits sum.splits)
next
  case (Elapse d)
  from assms show ?thesis unfolding Elapse by (simp add: gate_inv_def)
qed

lemma session_gate_inv: "gate_inv (session X clip tfl sm sched)"
proof -
  have "fifo_inv (session X clip tfl sm sched) \<and> gate_inv (session X clip tfl sm sched)"
    unfolding session_def
  proof (rule exec_invariant)
    show "fifo_inv (Player_init clip tfl sm) \<and> gate_inv (Player_init clip tfl sm)"
      by (simp add: fifo_inv_def gate_inv_def gated_def Player_init_def observe_defs)
  next
    fix a and s :: "'a player"
    assume "fifo_inv s \<and> gate_inv s"
    then show "fifo_inv (step X a s) \<and> gate_inv (step X a s)"
      by (simp add: fifo_inv_step gate_inv_step)
  qed
  then show ?thesis by simp
qed

subsection \<open>The length of a batch\<close>

lemma fetch_frames_length:
  "fetch_frames rs k it acc = (Inr frames, it') \<Longrightarrow> length frames = length acc + k"
  by (induction rs k it acc rule: fetch_frames.induct) auto

lemma those_length: "those xs = Some ys \<Longrightarrow> length ys = length xs"
  by (induction xs arbitrary: ys) (auto split: option.splits)

lemma batch_inv_step: "batch_inv s \<Longrightarrow> batch_inv (step X a s)"
proof (cases a)
  case Main
  assume "batch_inv s"
  then show ?thesis unfolding Main
    by (cases "main_thread s")
      (auto simp: batch_inv_def run_defs observe_defs
        dest: fetch_frames_length those_length
        split: list.splits sum.splits prod.splits option.splits)
next
  case (Worker k)
  assume "batch_inv s"
  then show ?thesis unfolding Worker
    by (cases "main_thread s") (simp_all add: batch_inv_def worker_keeps)
next
  case Audio
  assume "batch_inv s"
  then show ?thesis unfolding Audio
    by (cases "audio_thread s"; cases "main_thread s")
      (auto simp: batch_inv_def write_audio_stream_def emit_def observe_defs
        split: list.splits)
next
  case Video
  assume "batch_inv s"
  then show ?thesis unfolding Video
    by (cases "video_thread s"; cases "main_thread s")
      (auto simp: batch_inv_def write_video_stream_def emit_def observe_defs
        split: list.splits sum.splits)
next
  case (Elapse d)
  assume "batch_inv s"
  then show ?thesis unfolding Elapse by (cases "main_thread s") (simp_all add: batch_inv_def)
qed

lemma session_batch_inv: "batch_inv (session X clip tfl sm sched)"
  unfolding session_def
  by (rule exec_invariant)
    (simp_all add: batch_inv_step, simp add: batch_inv_def Player_init_def observe_defs)

subsection \<open>The order of the two puts\<close>

lemma all_take_snoc:
  "(\<forall>i. P (take i (xs @ [x]))) \<longleftrightarrow> (\<forall>i. P (take i xs)) \<and> P (xs @ [x])"
proof
  assume a: "\<forall>i. P (take i (xs @ [x]))"
  have "P (take i xs)" for i
  proof (cases "i \<le> length xs")
    case True
    with a[rule_format, of i] show ?thesis by simp
  next
    case False
    with a[rule_format, of "length xs"] show ?thesis by simp
  qed
  moreover from a[rule_format, of "Suc (length xs)"] have "P (xs @ [x])" by simp
  ultimately show "(\<forall>i. P (take i xs)) \<and> P (xs @ [x])" by simp
next
  assume b: "(\<forall>i. P (take i xs)) \<and> P (xs @ [x])"
  show "\<forall>i. P (take i (xs @ [x]))"
  proof
    fix i
    show "P (take i (xs @ [x]))"
    proof (cases "i \<le> length xs")
      case True
      with b show ?thesis by simp
    next
      case False
      with b show ?thesis by simp
    qed
  qed
qed

lemma balanced_snoc:
  "balanced (tr @ [e]) \<longleftrightarrow>
     balanced tr \<and> length (video_puts (tr @ [e])) \<le> length (audio_puts (tr @ [e])) \<and>
     length (audio_puts (tr @ [e])) \<le> Suc (length (video_puts (tr @ [e])))"
  unfolding balanced_def
  by (rule all_take_snoc[where P="\<lambda>tr. length (video_puts tr) \<le> length (audio_puts tr) \<and>
          length (audio_puts tr) \<le> Suc (length (video_puts tr))"])

lemma video_owed_le: "video_owed pc \<le> Suc 0"
  by (cases pc) simp_all

lemma order_inv_step: "order_inv s \<Longrightarrow> order_inv (step X a s)"
proof (cases a)
  case Main
  assume "order_inv s"
  then show ?thesis unfolding Main
    by (cases "main_thread s")
      (auto simp: order_inv_def run_defs balanced_snoc observe_defs
        split: list.splits sum.splits prod.splits option.splits)
next
  case (Worker k)
  assume "order_inv s"
  then show ?thesis unfolding Worker by (simp add: order_inv_def worker_keeps)
next
  case Audio
  assume "order_inv s"
  then show ?thesis unfolding Audio
    by (cases "audio_thread s")
      (auto simp: order_inv_def write_audio_stream_def emit_def balanced_snoc observe_defs
        video_owed_le split: list.splits)
next
  case Video
  assume "order_inv s"
  then show ?thesis unfolding Video
    by (cases "video_thread s")
      (auto simp: order_inv_def write_video_stream_def emit_def balanced_snoc observe_defs
        video_owed_le split: list.splits sum.splits)
next
  case (Elapse d)
  assume "order_inv s"
  then show ?thesis unfolding Elapse by (simp add: order_inv_def)
qed

lemma session_order_inv: "order_inv (session X clip tfl sm sched)"
  unfolding session_def
  by (rule exec_invariant)
    (simp_all add: order_inv_step,
      simp add: order_inv_def balanced_def Player_init_def observe_defs)

subsection \<open>The run flag\<close>

lemma run_inv_step: "run_inv s \<Longrightarrow> run_inv (step X a s)"
proof (cases a)
  case Main
  assume "run_inv s"
  then show ?thesis unfolding Main
    by (cases "main_thread s")
      (auto simp: run_inv_def run_defs running_sets_def
        split: list.splits sum.splits prod.splits option.splits)
next
  case (Worker k)
  assume "run_inv s"
  then show ?thesis unfolding Worker by (simp add: run_inv_def worker_keeps)
next
  case Audio
  assume "run_inv s"
  then show ?thesis unfolding Audio
    by (cases "audio_thread s")
      (auto simp: run_inv_def write_audio_stream_def emit_def running_sets_def
        split: list.splits)
next
  case Video
  assume "run_inv s"
  then show ?thesis unfolding Video
    by (cases "video_thread s")
      (auto simp: run_inv_def write_video_stream_def emit_def running_sets_def
        split: list.splits sum.splits)
next
  case (Elapse d)
  assume "run_inv s"
  then show ?thesis unfolding Elapse by (simp add: run_inv_def)
qed

lemma session_run_inv: "run_inv (session X clip tfl sm sched)"
  unfolding session_def
  by (rule exec_invariant)
    (simp_all add: run_inv_step, simp add: run_inv_def Player_init_def running_sets_def)

lemma running_mono: "running s \<Longrightarrow> running (step X a s)"
proof (cases a)
  case Main
  assume "running s"
  then show ?thesis unfolding Main
    by (cases "main_thread s")
      (auto simp: run_defs split: list.splits sum.splits prod.splits option.splits)
next
  case (Worker k)
  assume "running s"
  then show ?thesis unfolding Worker by (simp add: worker_keeps)
next
  case Audio
  assume "running s"
  then show ?thesis unfolding Audio
    by (auto simp: write_audio_stream_def emit_def split: audio_pc.splits list.splits)
next
  case Video
  assume "running s"
  then show ?thesis unfolding Video
    by (auto simp: write_video_stream_def emit_def
        split: video_pc.splits list.splits sum.splits)
next
  case (Elapse d)
  assume "running s"
  then show ?thesis unfolding Elapse by simp
qed

lemma running_changes:
  assumes "running (step X a s) \<noteq> running s"
  shows "a = Main \<and> (main_thread s = M_Set1 \<or> main_thread s = M_Set2)"
proof (cases a)
  case Main
  from assms show ?thesis unfolding Main
    by (cases "main_thread s")
      (auto simp: run_defs
        split: list.splits sum.splits prod.splits option.splits if_splits)
next
  case (Worker k)
  from assms show ?thesis unfolding Worker by (simp add: worker_keeps)
next
  case Audio
  from assms show ?thesis unfolding Audio
    by (auto simp: write_audio_stream_def emit_def split: audio_pc.splits list.splits if_splits)
next
  case Video
  from assms show ?thesis unfolding Video
    by (auto simp: write_video_stream_def emit_def
        split: video_pc.splits list.splits sum.splits if_splits)
next
  case (Elapse d)
  from assms show ?thesis unfolding Elapse by simp
qed

subsection \<open>Deadlines and dead consumers\<close>

lemma deadline_inv_step: "deadline_inv s \<Longrightarrow> deadline_inv (step X a s)"
proof (cases a)
  case Main
  assume "deadline_inv s"
  then show ?thesis unfolding Main step.simps deadline_inv_def
    using run_keeps[of X s] by auto
next
  case (Worker k)
  assume "deadline_inv s"
  then show ?thesis unfolding Worker by (simp add: deadline_inv_def worker_keeps)
next
  case Audio
  assume "deadline_inv s"
  then show ?thesis unfolding Audio
    by (cases "audio_thread s")
      (auto simp: deadline_inv_def write_audio_stream_def emit_def split: list.splits)
next
  case Video
  assume "deadline_inv s"
  then show ?thesis unfolding Video
    by (cases "video_thread s")
      (auto simp: deadline_inv_def write_video_stream_def emit_def
        split: list.splits sum.splits)
next
  case (Elapse d)
  assume "deadline_inv s"
  then show ?thesis unfolding Elapse by (auto simp: deadline_inv_def max_def)
qed

lemma session_deadline_inv: "deadline_inv (session X clip tfl sm sched)"
  unfolding session_def
  by (rule exec_invariant)
    (simp_all add: deadline_inv_step, simp add: deadline_inv_def Player_init_def)

lemma audio_dead_step: "audio_dead e evs s \<Longrightarrow> audio_dead e evs (step X a s)"
proof (cases a)
  case Main
  assume "audio_dead e evs s"
  then show ?thesis unfolding Main
    by (cases "main_thread s")
      (auto simp: audio_dead_def audio_events_def run_defs
        split: list.splits sum.splits prod.splits option.splits)
next
  case (Worker k)
  assume "audio_dead e evs s"
  then show ?thesis unfolding Worker by (simp add: audio_dead_def worker_keeps)
next
  case Audio
  assume "audio_dead e evs s"
  then show ?thesis unfolding Audio by (auto simp: audio_dead_def write_audio_stream_def)
next
  case Video
  assume "audio_dead e evs s"
  then show ?thesis unfolding Video
    by (cases "video_thread s")
      (auto simp: audio_dead_def audio_events_def write_video_stream_def emit_def
        split: list.splits sum.splits)
next
  case (Elapse d)
  assume "audio_dead e evs s"
  then show ?thesis unfolding Elapse by (simp add: audio_dead_def)
qed

lemma video_dead_step: "video_dead e evs s \<Longrightarrow> video_dead e evs (step X a s)"
proof (cases a)
  case Main
  assume "video_dead e evs s"
  then show ?thesis unfolding Main
    by (cases "main_thread s")
      (auto simp: video_dead_def video_events_def run_defs
        split: list.splits sum.splits prod.splits option.splits)
next
  case (Worker k)
  assume "video_dead e evs s"
  then show ?thesis unfolding Worker by (simp add: video_dead_def worker_keeps)
next
  case Audio
  assume "video_dead e evs s"
  then show ?thesis unfolding Audio
    by (cases "audio_thread s")
      (auto simp: video_dead_def video_events_def write_audio_stream_def emit_def
        split: list.splits)
next
  case Video
  assume "video_dead e evs s"
  then show ?thesis unfolding Video by (auto simp: video_dead_def write_video_stream_def)
next
  case (Elapse d)
  assume "video_dead e evs s"
  then show ?thesis unfolding Elapse by (simp add: video_dead_def)
qed

subsection \<open>What reaches the sinks\<close>

lemma written_inv_step: "written_inv X s \<Longrightarrow> written_inv X (step X a s)"
proof (cases a)
  case Main
  assume inv: "written_inv X s"
  have "in_hand (audio_thread (run X s)) = in_hand (audio_thread s)"
    using run_keeps(1)[of X s] by auto
  with inv show ?thesis unfolding Main
    by (simp add: written_inv_def run_consumer_events)
next
  case (Worker k)
  assume "written_inv X s"
  then show ?thesis unfolding Worker by (simp add: written_inv_def worker_keeps)
next
  case Audio
  assume "written_inv X s"
  then show ?thesis unfolding Audio
    by (cases "audio_thread s")
      (auto simp: written_inv_def to_device_def write_audio_stream_def emit_def observe_defs
        split: list.splits)
next
  case Video
  assume "written_inv X s"
  then show ?thesis unfolding Video
    by (cases "video_thread s")
      (auto simp: written_inv_def write_video_stream_def emit_def observe_defs
        split: list.splits sum.splits)
next
  case (Elapse d)
  assume "written_inv X s"
  then show ?thesis unfolding Elapse by (simp add: written_inv_def)
qed

lemma session_written_inv: "written_inv X (session X clip tfl sm sched)"
  unfolding session_def
  by (rule exec_invariant)
    (simp_all add: written_inv_step, simp add: written_inv_def Player_init_def observe_defs)

lemma in_hand_le: "length (in_hand pc) \<le> 1"
  by (cases pc) simp_all

lemma prefix_of_append: "xs @ zs = ys \<Longrightarrow> prefix xs ys"
  by auto

lemma shown_inv_step: "shown_inv X s \<Longrightarrow> shown_inv X (step X a s)"
proof (cases a)
  case Main
  assume inv: "shown_inv X s"
  have "shown_at mk (video_thread (run X s)) = shown_at mk (video_thread s)" for mk
    using run_keeps(2)[of X s] by (auto simp: fun_eq_iff)
  with inv show ?thesis unfolding Main
    by (simp add: shown_inv_def run_consumer_events)
next
  case (Worker k)
  assume "shown_inv X s"
  then show ?thesis unfolding Worker by (simp add: shown_inv_def worker_keeps)
next
  case Audio
  assume "shown_inv X s"
  then show ?thesis unfolding Audio
    by (cases "audio_thread s")
      (auto simp: shown_inv_def write_audio_stream_def emit_def observe_defs
        split: list.splits)
next
  case Video
  assume "shown_inv X s"
  then show ?thesis unfolding Video
    by (cases "video_thread s")
      (auto simp: shown_inv_def write_video_stream_def emit_def observe_defs
        split: list.splits sum.splits intro: prefix_of_append)
next
  case (Elapse d)
  assume "shown_inv X s"
  then show ?thesis unfolding Elapse by (simp add: shown_inv_def)
qed

lemma session_shown_inv: "shown_inv X (session X clip tfl sm sched)"
  unfolding session_def
  by (rule exec_invariant)
    (simp_all add: shown_inv_step, simp add: shown_inv_def Player_init_def observe_defs)

lemma shown_at_prefix: "shown_at mk pc ps gs \<Longrightarrow> prefix ps gs"
  by (cases pc) auto

lemma session_presents_prefix:
  "prefix (presents (trace (session X clip tfl sm sched)))
     (map (make_surface X) (concat (video_puts (trace (session X clip tfl sm sched)))))"
proof -
  let ?s = "session X clip tfl sm sched"
  have "prefix (presents (trace ?s)) (map (make_surface X) (concat (video_gets (trace ?s))))"
    using session_shown_inv[of X clip tfl sm sched]
    unfolding shown_inv_def by (rule shown_at_prefix)
  moreover have "video_puts (trace ?s) = video_gets (trace ?s) @ video_queue ?s"
    using session_fifo_inv[of X clip tfl sm sched] by (simp add: fifo_inv_def)
  ultimately show ?thesis by (auto simp: prefix_def)
qed

subsection \<open>A failed call of the pool\<close>

lemma pool_inv_step: "pool_inv s \<Longrightarrow> pool_inv (step X a s)"
proof (cases a)
  case Main
  assume "pool_inv s"
  then show ?thesis unfolding Main
    by (cases "main_thread s")
      (auto simp: pool_inv_def run_defs resolution_fn_def
        split: list.splits sum.splits prod.splits option.splits)
next
  case (Worker k)
  assume "pool_inv s"
  then show ?thesis unfolding Worker
    by (auto simp: pool_inv_def worker_def split: prod.splits option.splits
        dest!: set_update_subset_insert[THEN subsetD])
next
  case Audio
  assume "pool_inv s"
  then show ?thesis unfolding Audio
    by (cases "audio_thread s")
      (auto simp: pool_inv_def write_audio_stream_def emit_def split: list.splits)
next
  case Video
  assume "pool_inv s"
  then show ?thesis unfolding Video
    by (cases "video_thread s")
      (auto simp: pool_inv_def write_video_stream_def emit_def split: list.splits sum.splits)
next
  case (Elapse d)
  assume "pool_inv s"
  then show ?thesis unfolding Elapse by (simp add: pool_inv_def)
qed

lemma session_pool_inv: "pool_inv (session X clip tfl sm sched)"
  unfolding session_def
  by (rule exec_invariant)
    (simp_all add: pool_inv_step, simp add: pool_inv_def Player_init_def)

lemma doomed_step: "doomed puts s \<Longrightarrow> doomed puts (step X a s)"
proof (cases a)
  case Main
  assume "doomed puts s"
  then show ?thesis unfolding Main
    by (cases "main_thread s")
      (auto simp: doomed_def run_def video_second_return_def raise_def)
next
  case (Worker k)
  assume "doomed puts s"
  then show ?thesis unfolding Worker
    by (cases "main_thread s")
      (auto simp: doomed_def worker_def split: prod.splits option.splits)
next
  case Audio
  assume "doomed puts s"
  then show ?thesis unfolding Audio
    by (cases "audio_thread s")
      (auto simp: doomed_def write_audio_stream_def emit_def observe_defs split: list.splits)
next
  case Video
  assume "doomed puts s"
  then show ?thesis unfolding Video
    by (cases "video_thread s")
      (auto simp: doomed_def write_video_stream_def emit_def observe_defs
        split: list.splits sum.splits)
next
  case (Elapse d)
  assume "doomed puts s"
  then show ?thesis unfolding Elapse by (simp add: doomed_def)
qed

subsection \<open>The pacing of the frames\<close>

lemma pacing_snoc: "pacing d (ps @ [f]) = pacing d ps @ [Present f, Sleep d]"
  by (simp add: pacing_def)

lemma pacing_Nil: "pacing d [] = []"
  by (simp add: pacing_def)

lemma pacing_last:
  "ps \<noteq> [] \<Longrightarrow> pacing d (butlast ps) @ [Present (last ps), Sleep d] = pacing d ps"
  using pacing_snoc[of d "butlast ps" "last ps"] by simp

lemma presents_snoc: "presents (tr @ [e]) = presents tr @ present_of e"
  by (simp add: presents_def)

lemma display_snoc: "display (tr @ [e]) = display tr @ display_of e"
  by (simp add: display_def)

lemma frame_sleep_paced:
  assumes "0 < fps s" and "fps s \<le> 4000 / 9" and "tolerance s = 9 / 4"
  shows "frame_sleep s = Inr (frame_interval (fps s))"
proof -
  from assms(1,2) have "9 / 4 \<le> 1000 / fps s"
    by (simp add: pos_le_divide_eq)
  then have "\<not> (1000 / fps s - 9 / 4) / 1000 < 0"
    by simp
  with assms(1,3) show ?thesis
    by (simp add: frame_sleep_def frame_interval_def Let_def)
qed

lemma run_display: "display (trace (run X s)) = display (trace s)"
  by (cases "main_thread s")
    (auto simp: run_defs display_def split: list.splits sum.splits prod.splits option.splits)

lemma paced_inv_step: "paced_inv s \<Longrightarrow> paced_inv (step X a s)"
proof (cases a)
  case Main
  assume inv: "paced_inv s"
  have "paced_at d (video_thread (run X s)) = paced_at d (video_thread s)" for d
    using run_keeps(2)[of X s] by (auto simp: fun_eq_iff)
  moreover have "config (run X s) = config s"
    using config_step[of X Main s] by simp
  ultimately show ?thesis using inv unfolding Main
    by (simp add: paced_inv_def run_display run_consumer_events config_def)
next
  case (Worker k)
  assume "paced_inv s"
  then show ?thesis unfolding Worker by (simp add: paced_inv_def worker_keeps)
next
  case Audio
  assume "paced_inv s"
  then show ?thesis unfolding Audio
    by (cases "audio_thread s")
      (auto simp: paced_inv_def write_audio_stream_def emit_def presents_snoc display_snoc
        split: list.splits)
next
  case Video
  assume inv: "paced_inv s"
  then have "frame_sleep s = Inr (frame_interval (fps s))"
    by (simp add: paced_inv_def frame_sleep_paced)
  with inv show ?thesis unfolding Video
    by (cases "video_thread s")
      (auto simp: paced_inv_def write_video_stream_def emit_def presents_snoc display_snoc
        pacing_snoc pacing_last split: list.splits)
next
  case (Elapse d)
  assume "paced_inv s"
  then show ?thesis unfolding Elapse by (simp add: paced_inv_def)
qed

lemma session_paced_inv:
  assumes "0 < file_fps clip" and "file_fps clip \<le> 4000 / 9"
  shows "paced_inv (session X clip tfl sm sched)"
  unfolding session_def
proof (rule exec_invariant)
  show "paced_inv (Player_init clip tfl sm)"
    using assms by (simp add: paced_inv_def Player_init_def presents_def display_def pacing_def)
qed (rule paced_inv_step)

lemma paced_at_cases:
  "paced_at d pc ps evs \<Longrightarrow>
     evs = pacing d ps \<or> (ps \<noteq> [] \<and> evs = butlast (pacing d ps))"
proof (cases pc)
  case (V_Pace fs)
  assume "paced_at d pc ps evs"
  with V_Pace have ne: "ps \<noteq> []" and evs: "evs = pacing d (butlast ps) @ [Present (last ps)]"
    by simp_all
  from ne have "pacing d ps = pacing d (butlast ps) @ [Present (last ps), Sleep d]"
    using pacing_snoc[of d "butlast ps" "last ps"] by simp
  then have "butlast (pacing d ps) = pacing d (butlast ps) @ [Present (last ps)]"
    by (simp add: butlast_append)
  with ne evs show ?thesis by simp
qed auto

subsection \<open>Running the producer alone\<close>

lemma fetch_frames_append:
  "fetch_frames rs (length fs) (fs @ rest) acc = (Inr (acc @ map rs fs), rest)"
  by (induction fs arbitrary: acc) simp_all

lemma those_outcome_done: "those (map outcome (map T_Done fs)) = Some fs"
  by (induction fs) simp_all

lemma worker_saved:
  assumes "pool s = map T_Done ds @ T_Saved f # ts" and "\<not> saved_model s"
    and "pool_error s = None"
  shows "worker X (length ds) s = s\<lparr>pool := map T_Done (ds @ [squeeze_clip X f]) @ ts\<rparr>"
  using assms
  by (cases s)
    (simp add: worker_def task_step_def saved_model_super_resolve_def nth_append
      list_update_append)

lemma workers_saved:
  assumes "pool s = map T_Done ds @ map T_Saved fs" and "\<not> saved_model s"
    and "pool_error s = None"
  shows "exec X (map Worker [length ds..<length ds + length fs]) s =
     s\<lparr>pool := map T_Done (ds @ map (squeeze_clip X) fs)\<rparr>"
  using assms
proof (induction fs arbitrary: ds s)
  case Nil
  then show ?case by (cases s) simp
next
  case (Cons f fs)
  let ?ds = "ds @ [squeeze_clip X f]"
  let ?s1 = "s\<lparr>pool := map T_Done ?ds @ map T_Saved fs\<rparr>"
  from Cons.prems have w: "worker X (length ds) s = ?s1"
    by (simp add: worker_saved)
  have ih: "exec X (map Worker [length ?ds..<length ?ds + length fs]) ?s1 =
      ?s1\<lparr>pool := map T_Done (?ds @ map (squeeze_clip X) fs)\<rparr>"
    using Cons.prems by (intro Cons.IH) simp_all
  have sched: "map Worker [length ds..<length ds + length (f # fs)] =
      Worker (length ds) # map Worker [length ?ds..<length ?ds + length fs]"
    by (simp add: upt_conv_Cons del: upt_Suc)
  have "exec X (map Worker [length ds..<length ds + length (f # fs)]) s =
      exec X (map Worker [length ?ds..<length ?ds + length fs]) (worker X (length ds) s)"
    by (simp only: sched exec.simps step.simps)
  also have "\<dots> = exec X (map Worker [length ?ds..<length ?ds + length fs]) ?s1"
    by (simp only: w)
  also have "\<dots> = ?s1\<lparr>pool := map T_Done (?ds @ map (squeeze_clip X) fs)\<rparr>"
    by (rule ih)
  also have "\<dots> = s\<lparr>pool := map T_Done (ds @ map (squeeze_clip X) (f # fs))\<rparr>"
    by simp
  finally show ?case .
qed

lemma run_fetch:
  assumes "main_thread s = M_For k" and "k < range_len (py_int (duration s))"
    and "audio_iterator s = a # as" and "video_iterator s = fs @ rest"
    and "length fs = range_len (py_int (fps s))"
    and "\<not> interpreter s" and "\<not> saved_model s"
  shows "run X s =
     s\<lparr>trace := trace s @ [LogFetching], audio_iterator := as,
       video_iterator := rest, pool := map T_Saved (map (resize X) fs), pool_error := None,
       main_thread := M_Pool k a\<rparr>"
proof -
  have "fetch_frames (resize X) (range_len (py_int (fps s))) (fs @ rest) [] =
      (Inr (map (resize X) fs), rest)"
    using fetch_frames_append[of "resize X" fs rest "[]"] assms(5) by simp
  with assms show ?thesis
    by (simp add: run_def fetch_video_def video_second_def emit_def resolution_fn_def)
qed

lemma run_pool_return:
  assumes "main_thread s = M_Pool k a" and "pool_error s = None" and "pool s = map T_Done out"
  shows "run X s = s\<lparr>main_thread := M_PutAudio k a out\<rparr>"
  using assms those_outcome_done[of out]
  by (simp add: run_def video_second_return_def del: map_map)

lemma run_put_audio:
  assumes "main_thread s = M_PutAudio k a v"
  shows "run X s = s\<lparr>trace := trace s @ [AudioPut a], audio_queue := audio_queue s @ [a],
     main_thread := M_PutVideo k v\<rparr>"
  using assms by (simp add: run_def emit_def)

lemma run_put_video:
  assumes "main_thread s = M_PutVideo k v"
  shows "run X s = s\<lparr>trace := trace s @ [VideoPut v], video_queue := video_queue s @ [v],
     main_thread := M_Sleep k (clock s + 1 / 10)\<rparr>"
  using assms by (simp add: run_def emit_def)

lemma run_wake:
  assumes "main_thread s = M_Sleep k t" and "t \<le> clock s"
  shows "run X s = s\<lparr>main_thread := M_For (Suc k)\<rparr>"
  using assms by (simp add: run_def)

text \<open>One iteration of the producer, with no model configured.\<close>

lemma second_exec:
  assumes "main_thread s = M_For k" and "k < range_len (py_int (duration s))"
    and "audio_iterator s = a # as" and "video_iterator s = fs @ rest"
    and "length fs = range_len (py_int (fps s))"
    and "\<not> interpreter s" and "\<not> saved_model s"
  shows "exec X (second (length fs)) s =
     s\<lparr>video_iterator := rest, audio_iterator := as,
       pool := map T_Done (map (squeeze_clip X) (map (resize X) fs)), pool_error := None,
       audio_queue := audio_queue s @ [a],
       video_queue := video_queue s @ [map (squeeze_clip X) (map (resize X) fs)],
       main_thread := M_For (Suc k), clock := clock s + 1 / 10,
       trace := trace s @ [LogFetching, AudioPut a,
         VideoPut (map (squeeze_clip X) (map (resize X) fs))]\<rparr>"
proof -
  let ?in = "map (resize X) fs"
  let ?out = "map (squeeze_clip X) ?in"
  define s1 where "s1 = run X s"
  define s2 where "s2 = exec X (map Worker [0..<length fs]) s1"
  define s3 where "s3 = run X s2"
  define s4 where "s4 = run X s3"
  define s5 where "s5 = run X s4"
  define s6 where "s6 = step X (Elapse (1 / 10)) s5"
  define s7 where "s7 = run X s6"
  have e1: "s1 = s\<lparr>trace := trace s @ [LogFetching], audio_iterator := as,
      video_iterator := rest, pool := map T_Saved ?in, pool_error := None,
      main_thread := M_Pool k a\<rparr>"
    unfolding s1_def by (rule run_fetch[OF assms])
  have e2: "s2 = s1\<lparr>pool := map T_Done ?out\<rparr>"
    unfolding s2_def
    using assms workers_saved[where ds="[]" and fs="?in" and s=s1 and X=X]
    by (simp add: e1)
  have e3: "s3 = s2\<lparr>main_thread := M_PutAudio k a ?out\<rparr>"
    unfolding s3_def by (rule run_pool_return) (simp_all add: e2 e1)
  have e4: "s4 = s3\<lparr>trace := trace s3 @ [AudioPut a], audio_queue := audio_queue s3 @ [a],
      main_thread := M_PutVideo k ?out\<rparr>"
    unfolding s4_def by (rule run_put_audio) (simp add: e3)
  have e5: "s5 = s4\<lparr>trace := trace s4 @ [VideoPut ?out],
      video_queue := video_queue s4 @ [?out], main_thread := M_Sleep k (clock s4 + 1 / 10)\<rparr>"
    unfolding s5_def by (rule run_put_video) (simp add: e4)
  have e6: "s6 = s5\<lparr>clock := clock s5 + 1 / 10\<rparr>"
    unfolding s6_def by simp
  have e7: "s7 = s6\<lparr>main_thread := M_For (Suc k)\<rparr>"
    unfolding s7_def by (rule run_wake[where t="clock s4 + 1 / 10"]) (simp_all add: e6 e5)
  have "exec X (second (length fs)) s = s7"
    unfolding second_def s7_def s6_def s5_def s4_def s3_def s2_def s1_def
    by (simp only: exec.simps step.simps exec_append)
  also have "\<dots> = s\<lparr>video_iterator := rest, audio_iterator := as,
       pool := map T_Done ?out, pool_error := None,
       audio_queue := audio_queue s @ [a],
       video_queue := video_queue s @ [?out],
       main_thread := M_For (Suc k), clock := clock s + 1 / 10,
       trace := trace s @ [LogFetching, AudioPut a, VideoPut ?out]\<rparr>"
    by (simp add: e7 e6 e5 e4 e3 e2 e1)
  finally show ?thesis .
qed

lemma session_models:
  "interpreter (session X clip tfl sm sched) = tfl"
  "saved_model (session X clip tfl sm sched) = sm"
proof -
  have "config (session X clip tfl sm sched) = config (Player_init clip tfl sm)"
    by (simp add: session_def config_exec)
  then show "interpreter (session X clip tfl sm sched) = tfl"
    and "saved_model (session X clip tfl sm sched) = sm"
    by (simp_all add: config_def Player_init_def)
qed

lemma run_start:
  "exec X [Main, Main, Main, Main] (Player_init clip tfl sm) =
     (Player_init clip tfl sm)\<lparr>running := True, trace := [RunningSet],
        audio_thread := A_Wait, video_thread := V_Wait, main_thread := M_For 0\<rparr>"
  by (simp add: Player_init_def run_def set_running_def emit_def)

lemma buffering_Suc: "buffering (Suc k) m = buffering k m @ second m"
proof -
  have "replicate (Suc k) (second m) = replicate k (second m) @ [second m]"
    by (simp add: replicate_append_same)
  then show ?thesis
    by (simp only: buffering_def concat_append append_assoc) simp
qed

text \<open>
  The producer run alone over a clip of equal frames and equal chunks, with no model:
  after \<open>k\<close> iterations the video queue holds \<open>k\<close> batches and nothing was shown.
\<close>

lemma buffering_state:
  assumes m: "range_len (py_int (file_fps clip)) = m"
    and K: "range_len (py_int (file_duration clip)) = K"
    and frames: "file_frames clip = replicate (K * m) f"
    and chunks: "file_chunks clip = replicate K c"
    and k: "k \<le> K"
  shows "main_thread (session X clip False False (buffering k m)) = M_For k \<and>
    audio_iterator (session X clip False False (buffering k m)) = replicate (K - k) c \<and>
    video_iterator (session X clip False False (buffering k m)) = replicate ((K - k) * m) f \<and>
    video_queue (session X clip False False (buffering k m)) =
      replicate k (replicate m (squeeze_clip X (resize X f))) \<and>
    video_thread (session X clip False False (buffering k m)) = V_Wait \<and>
    running (session X clip False False (buffering k m)) \<and>
    display (trace (session X clip False False (buffering k m))) = [] \<and>
    presents (trace (session X clip False False (buffering k m))) = []"
  using k
proof (induction k)
  case 0
  have "session X clip False False (buffering 0 m) =
      (Player_init clip False False)\<lparr>running := True, trace := [RunningSet],
        audio_thread := A_Wait, video_thread := V_Wait, main_thread := M_For 0\<rparr>"
    by (simp only: session_def buffering_def replicate.simps concat.simps append_Nil2 run_start)
  then show ?case
    by (simp add: Player_init_def frames chunks display_def presents_def)
next
  case (Suc k)
  let ?s = "session X clip False False (buffering k m)"
  let ?fs = "replicate m f"
  from Suc have ih: "main_thread ?s = M_For k"
    "audio_iterator ?s = replicate (K - k) c"
    "video_iterator ?s = replicate ((K - k) * m) f"
    "video_queue ?s = replicate k (replicate m (squeeze_clip X (resize X f)))"
    "video_thread ?s = V_Wait" "running ?s"
    "display (trace ?s) = []" "presents (trace ?s) = []"
    by simp_all
  from Suc.prems have Kk: "K - k = Suc (K - Suc k)"
    by simp
  have a: "audio_iterator ?s = c # replicate (K - Suc k) c"
    by (simp add: ih(2) Kk)
  have "(K - k) * m = m + (K - Suc k) * m"
    by (simp add: Kk)
  then have v: "video_iterator ?s = ?fs @ replicate ((K - Suc k) * m) f"
    by (simp add: ih(3) replicate_add)
  have bound: "k < range_len (py_int (duration ?s))"
    using Suc.prems by (simp add: session_config K)
  have len: "length ?fs = range_len (py_int (fps ?s))"
    by (simp add: session_config m)
  have next_s: "session X clip False False (buffering (Suc k) m) = exec X (second (length ?fs)) ?s"
    by (simp add: buffering_Suc session_append)
  note run = second_exec[OF ih(1) bound a v len, of X, folded next_s]
  have "replicate k (replicate m (squeeze_clip X (resize X f))) @
      [replicate m (squeeze_clip X (resize X f))] =
      replicate (Suc k) (replicate m (squeeze_clip X (resize X f)))"
    by (simp add: replicate_append_same)
  moreover have "display (tr @ [LogFetching, AudioPut c, VideoPut v]) = display tr"
    and "presents (tr @ [LogFetching, AudioPut c, VideoPut v]) = presents tr"
    for tr :: "'a event list" and v
    by (simp_all add: display_def presents_def)
  ultimately show ?case
    by (simp add: run session_models ih)
qed

subsection \<open>The video consumer, step by step\<close>

lemma video_pass_gate:
  assumes "video_thread s = V_Wait" and "BUFFER_SIZE \<le> length (video_queue s)"
  shows "write_video_stream X s = s\<lparr>video_thread := V_While\<rparr>"
  using assms by (simp add: write_video_stream_def)

lemma video_call_get:
  assumes "video_thread s = V_While" and "running s"
  shows "write_video_stream X s = s\<lparr>video_thread := V_Get (clock s + 10)\<rparr>"
  using assms by (simp add: write_video_stream_def)

lemma video_got:
  assumes "video_thread s = V_Get t" and "video_queue s = v # q"
  shows "write_video_stream X s =
     s\<lparr>trace := trace s @ [VideoGet v], video_queue := q, video_thread := V_For v\<rparr>"
  using assms by (simp add: write_video_stream_def emit_def)

lemma video_present:
  assumes "video_thread s = V_For (f # fs)"
  shows "write_video_stream X s =
     s\<lparr>trace := trace s @ [Present (make_surface X f)], video_thread := V_Pace fs\<rparr>"
  using assms by (simp add: write_video_stream_def emit_def)

lemma video_sleep_raises:
  assumes "video_thread s = V_Pace fs" and "frame_sleep s = Inl e"
  shows "write_video_stream X s = s\<lparr>video_thread := V_Raised e\<rparr>"
  using assms by (simp add: write_video_stream_def)

lemma frame_sleep_negative:
  assumes "4000 / 9 < fps s" and "tolerance s = 9 / 4"
  shows "frame_sleep s = Inl ValueError"
proof -
  from assms(1) have pos: "0 < fps s"
    by simp
  with assms(1) have "1000 / fps s < 9 / 4"
    by (simp add: pos_divide_less_eq)
  then have "(1000 / fps s - 9 / 4) / 1000 < 0"
    by simp
  with pos assms(2) show ?thesis
    by (simp add: frame_sleep_def Let_def)
qed

text \<open>
  At more than 4000/9 frames per second, the consumer shows the first frame and ends in
  line 157 with the \<^verbatim>\<open>ValueError\<close> of \<^verbatim>\<open>time.sleep\<close>.
\<close>

lemma fast_clip_raises:
  assumes m: "range_len (py_int (file_fps clip)) = Suc m"
    and K: "range_len (py_int (file_duration clip)) = K"
    and frames: "file_frames clip = replicate (K * Suc m) f"
    and chunks: "file_chunks clip = replicate K c"
    and buf: "BUFFER_SIZE \<le> K"
    and fast: "4000 / 9 < file_fps clip"
  shows "video_thread (session X clip False False
        (buffering K (Suc m) @ [Video, Video, Video, Video, Video])) = V_Raised ValueError \<and>
    display (trace (session X clip False False
        (buffering K (Suc m) @ [Video, Video, Video, Video, Video]))) =
      [Present (make_surface X (squeeze_clip X (resize X f)))] \<and>
    presents (trace (session X clip False False
        (buffering K (Suc m) @ [Video, Video, Video, Video, Video]))) =
      [make_surface X (squeeze_clip X (resize X f))]"
proof -
  let ?s = "session X clip False False (buffering K (Suc m))"
  let ?b = "replicate (Suc m) (squeeze_clip X (resize X f))"
  from buffering_state[OF m K frames chunks order_refl, of X]
  have st: "video_queue ?s = replicate K ?b" "video_thread ?s = V_Wait" "running ?s"
    "display (trace ?s) = []" "presents (trace ?s) = []"
    by simp_all
  from buf obtain K' where K': "K = Suc K'"
    by (cases K) (simp_all add: BUFFER_SIZE_def)
  have q: "video_queue ?s = ?b # replicate K' ?b"
    using st(1) K' by simp
  define s1 where "s1 = write_video_stream X ?s"
  define s2 where "s2 = write_video_stream X s1"
  define s3 where "s3 = write_video_stream X s2"
  define s4 where "s4 = write_video_stream X s3"
  define s5 where "s5 = write_video_stream X s4"
  have e1: "s1 = ?s\<lparr>video_thread := V_While\<rparr>"
    unfolding s1_def using st buf by (intro video_pass_gate) simp_all
  have e2: "s2 = s1\<lparr>video_thread := V_Get (clock s1 + 10)\<rparr>"
    unfolding s2_def by (rule video_call_get) (simp_all add: e1 st)
  have e3: "s3 = s2\<lparr>trace := trace s2 @ [VideoGet ?b], video_queue := replicate K' ?b,
      video_thread := V_For ?b\<rparr>"
    unfolding s3_def
    by (rule video_got[where t="clock s1 + 10"]) (simp_all add: e2 e1 q)
  have e4: "s4 = s3\<lparr>trace := trace s3 @ [Present (make_surface X (squeeze_clip X (resize X f)))],
      video_thread := V_Pace (replicate m (squeeze_clip X (resize X f)))\<rparr>"
    unfolding s4_def by (rule video_present) (simp add: e3)
  have "4000 / 9 < fps s4"
    using fast by (simp add: e4 e3 e2 e1 session_config)
  moreover have "tolerance s4 = 9 / 4"
    by (simp add: e4 e3 e2 e1 session_config)
  ultimately have "frame_sleep s4 = Inl ValueError"
    by (rule frame_sleep_negative)
  then have e5: "s5 = s4\<lparr>video_thread := V_Raised ValueError\<rparr>"
    unfolding s5_def by (intro video_sleep_raises[where fs="replicate m (squeeze_clip X (resize X f))"])
      (simp_all add: e4)
  have "session X clip False False (buffering K (Suc m) @ [Video, Video, Video, Video, Video]) = s5"
    unfolding s5_def s4_def s3_def s2_def s1_def
    by (simp only: session_append exec.simps step.simps)
  moreover have "display (tr @ [VideoGet v, Present p]) = display tr @ [Present p]"
    and "presents (tr @ [VideoGet v, Present p]) = presents tr @ [p]"
    for tr :: "'a event list" and v p
    by (simp_all add: display_def presents_def)
  ultimately show ?thesis
    by (simp add: e5 e4 e3 e2 e1 st)
qed

subsection \<open>The order of the frames on the SavedModel path\<close>

lemma fetch_frames_Inr:
  "fetch_frames rs k it acc = (Inr frames, it') \<Longrightarrow>
     frames = acc @ map rs (take k it) \<and> it' = drop k it \<and> k \<le> length it"
  by (induction rs k it acc rule: fetch_frames.induct) auto

lemma those_Some: "those xs = Some ys \<Longrightarrow> xs = map Some ys"
  by (induction xs arbitrary: ys) (auto split: option.splits)

lemma saved_finished: "finished (saved_model_super_resolve X sm f)"
  by (simp add: saved_model_super_resolve_def split: sum.splits)

lemma pool_in_order_start:
  "pool_in_order X sm fs (map T_Saved (map (resize X) fs))"
  by (simp add: pool_in_order_def)

lemma pool_in_order_worker:
  assumes "pool_in_order X sm fs ts" and "k < length ts" and "\<not> finished (ts ! k)"
  shows "pool_in_order X sm fs
     (ts[k := snd (task_step X sm tensors (ts ! k))])"
proof -
  from assms have "ts ! k = T_Saved (resize X (fs ! k))"
    using saved_finished[of X sm "resize X (fs ! k)"] by (auto simp: pool_in_order_def)
  then have "snd (task_step X sm tensors (ts ! k)) =
      saved_model_super_resolve X sm (resize X (fs ! k))"
    by (simp add: task_step_def)
  with assms(1,2) show ?thesis
    by (auto simp: pool_in_order_def nth_list_update)
qed

lemma pool_in_order_results:
  assumes "pool_in_order X sm fs ts" and "those (map outcome ts) = Some frames"
  shows "map Some frames = map (enhanced X sm) fs"
proof -
  from assms(2) have out: "map outcome ts = map Some frames"
    by (rule those_Some)
  then have len: "length frames = length ts"
    using length_map[of outcome ts] length_map[of Some frames] by simp
  have "Some (frames ! k) = enhanced X sm (fs ! k)" if k: "k < length ts" for k
  proof -
    from out k len have o: "outcome (ts ! k) = Some (frames ! k)"
      using nth_map[of k ts outcome] nth_map[of k frames Some] by simp
    then have "ts ! k \<noteq> T_Saved (resize X (fs ! k))"
      by auto
    with assms(1) k have "ts ! k = saved_model_super_resolve X sm (resize X (fs ! k))"
      by (auto simp: pool_in_order_def)
    with o show ?thesis
      by (simp add: enhanced_def)
  qed
  with len assms(1) show ?thesis
    by (auto simp: pool_in_order_def list_eq_iff_nth_eq)
qed

lemma in_order_snoc:
  assumes "in_order X sm m F puts"
    and "map Some v = map (enhanced X sm) (second_frames m F (length puts))"
  shows "in_order X sm m F (puts @ [v])"
  using assms by (auto simp: in_order_def nth_append less_Suc_eq)

lemma second_frames_fetched:
  assumes "fetch_frames rs m (drop (i * m) F) [] = (Inr frames, it')"
  shows "frames = map rs (second_frames m F i) \<and> it' = drop (Suc i * m) F"
proof -
  from fetch_frames_Inr[OF assms]
  have "frames = map rs (take m (drop (i * m) F))" and "it' = drop m (drop (i * m) F)"
    by simp_all
  then show ?thesis
    by (simp add: second_frames_def add.commute)
qed

lemma enhanced_inv_run:
  assumes "enhanced_inv X F s"
  shows "enhanced_inv X F (run X s)"
proof (cases "main_thread s")
  case (M_For i)
  show ?thesis
  proof (cases "i < range_len (py_int (duration s))")
    case False
    with assms M_For show ?thesis
      by (simp add: enhanced_inv_def run_def)
  next
    case True
    note i = this
    show ?thesis
    proof (cases "audio_iterator s")
      case Nil
      with assms M_For i show ?thesis
        by (simp add: enhanced_inv_def run_defs observe_defs)
    next
      case (Cons a as)
      let ?m = "range_len (py_int (fps s))"
      from assms M_For have it: "video_iterator s = drop (i * ?m) F"
        by (simp add: enhanced_inv_def)
      obtain r it' where f: "fetch_frames (resize X) ?m (video_iterator s) [] = (r, it')"
        by (cases "fetch_frames (resize X) ?m (video_iterator s) []")
      show ?thesis
      proof (cases r)
        case (Inl e)
        with assms M_For i Cons f show ?thesis
          by (simp add: enhanced_inv_def run_defs observe_defs)
      next
        case (Inr frames)
        with f it have "frames = map (resize X) (second_frames ?m F i)"
          and "it' = drop (Suc i * ?m) F"
          using second_frames_fetched[of "resize X" ?m i F frames it'] by simp_all
        with assms M_For i Cons f Inr show ?thesis
          using pool_in_order_start[of X "saved_model s" "second_frames ?m F i"]
          by (auto simp: enhanced_inv_def run_defs observe_defs resolution_fn_def)
      qed
    qed
  qed
next
  case (M_Pool i a)
  show ?thesis
  proof (cases "pool_error s")
    case (Some e)
    with assms M_Pool show ?thesis
      by (simp add: enhanced_inv_def run_def video_second_return_def raise_def)
  next
    case None
    show ?thesis
    proof (cases "those (map outcome (pool s))")
      case n: None
      with assms M_Pool None show ?thesis
        by (simp add: enhanced_inv_def run_def video_second_return_def)
    next
      case (Some frames)
      from assms M_Pool have "pool_in_order X (saved_model s)
          (second_frames (range_len (py_int (fps s))) F i) (pool s)"
        by (simp add: enhanced_inv_def)
      from pool_in_order_results[OF this Some] assms M_Pool None Some show ?thesis
        by (simp add: enhanced_inv_def run_def video_second_return_def)
    qed
  qed
next
  case (M_PutVideo i v)
  with assms have "in_order X (saved_model s) (range_len (py_int (fps s))) F
      (video_puts (trace s) @ [v])"
    by (intro in_order_snoc) (simp_all add: enhanced_inv_def)
  with assms M_PutVideo show ?thesis
    by (simp add: enhanced_inv_def run_def emit_def observe_defs)
qed (use assms in \<open>auto simp: enhanced_inv_def run_defs observe_defs\<close>)

lemma worker_keeps_source:
  "video_iterator (worker X k s) = video_iterator s" "interpreter (worker X k s) = interpreter s"
  "saved_model (worker X k s) = saved_model s"
  by (simp_all add: worker_def split: prod.splits)

lemma in_order_Nil: "in_order X sm m F []"
  by (simp add: in_order_def)

lemma enhanced_inv_worker:
  assumes "enhanced_inv X F s"
  shows "enhanced_inv X F (worker X k s)"
proof (cases "main_thread s")
  case (M_Pool i a)
  let ?fs = "second_frames (range_len (py_int (fps s))) F i"
  from assms M_Pool have inv: "pool_in_order X (saved_model s) ?fs (pool s)"
    by (simp add: enhanced_inv_def)
  have "pool_in_order X (saved_model s) ?fs (pool (worker X k s))"
  proof (cases "k < length (pool s) \<and> \<not> finished (pool s ! k)")
    case False
    with inv show ?thesis
      by (auto simp: worker_def)
  next
    case True
    then have "pool (worker X k s) = (pool s)[k :=
        snd (task_step X (saved_model s) (input_tensor s, output_tensor s) (pool s ! k))]"
      by (simp add: worker_def split: prod.splits)
    with pool_in_order_worker[OF inv, of k "(input_tensor s, output_tensor s)"] True
    show ?thesis by simp
  qed
  with assms M_Pool show ?thesis
    by (simp add: enhanced_inv_def worker_keeps worker_keeps_source)
next
  case M_Acquire1
  with assms show ?thesis
    by (auto simp: enhanced_inv_def worker_keeps worker_keeps_source in_order_Nil)
next
  case M_Set1
  with assms show ?thesis
    by (auto simp: enhanced_inv_def worker_keeps worker_keeps_source in_order_Nil)
next
  case M_StartAudio
  with assms show ?thesis
    by (auto simp: enhanced_inv_def worker_keeps worker_keeps_source in_order_Nil)
next
  case M_StartVideo
  with assms show ?thesis
    by (auto simp: enhanced_inv_def worker_keeps worker_keeps_source in_order_Nil)
next
  case (M_For i)
  with assms show ?thesis
    by (auto simp: enhanced_inv_def worker_keeps worker_keeps_source in_order_Nil)
next
  case (M_PutAudio i a v)
  with assms show ?thesis
    by (auto simp: enhanced_inv_def worker_keeps worker_keeps_source in_order_Nil)
next
  case (M_PutVideo i v)
  with assms show ?thesis
    by (auto simp: enhanced_inv_def worker_keeps worker_keeps_source in_order_Nil)
next
  case (M_Sleep i t)
  with assms show ?thesis
    by (auto simp: enhanced_inv_def worker_keeps worker_keeps_source in_order_Nil)
qed (use assms in \<open>simp_all add: enhanced_inv_def worker_keeps worker_keeps_source\<close>)

lemma enhanced_inv_step: "enhanced_inv X F s \<Longrightarrow> enhanced_inv X F (step X a s)"
proof (cases a)
  case Main
  assume "enhanced_inv X F s"
  then show ?thesis unfolding Main by (simp add: enhanced_inv_run)
next
  case (Worker k)
  assume "enhanced_inv X F s"
  then show ?thesis unfolding Worker by (simp add: enhanced_inv_worker)
next
  case Audio
  assume "enhanced_inv X F s"
  then show ?thesis unfolding Audio
    by (cases "audio_thread s")
      (auto simp: enhanced_inv_def write_audio_stream_def emit_def observe_defs
        split: list.splits)
next
  case Video
  assume "enhanced_inv X F s"
  then show ?thesis unfolding Video
    by (cases "video_thread s")
      (auto simp: enhanced_inv_def write_video_stream_def emit_def observe_defs
        split: list.splits sum.splits)
next
  case (Elapse d)
  assume "enhanced_inv X F s"
  then show ?thesis unfolding Elapse by (simp add: enhanced_inv_def)
qed

section \<open>The claims\<close>

subsection \<open>The sample sessions, evaluated\<close>

lemma sample_trace:
  "trace sample_session =
     [RunningSet,
      LogFetching, AudioPut (chunk Float64 1), VideoPut [101],
      LogFetching, AudioPut (chunk Float32 2), VideoPut [102],
      LogFetching, AudioPut (chunk Float64 3), VideoPut [103],
      LogFetching, AudioPut (chunk Float64 4), VideoPut [104],
      LogFetching, AudioPut (chunk Float64 5), VideoPut [105],
      LogFetching, AudioPut (chunk Float64 6), VideoPut [106],
      LogFetching, AudioPut (chunk Float64 7), VideoPut [107],
      LogFetching, AudioPut (chunk Float64 8), VideoPut [108],
      AudioGet (chunk Float64 1), AudioWrite (Float32, [1, 1 / 2]),
      VideoGet [101], Present 101, Sleep (3991 / 4000)]"
  by code_simp


lemma starved_state:
  "audio_thread starved_session = A_Get (59 / 5)" "audio_queue starved_session = []"
  "clock starved_session = 59 / 5"
  by code_simp+

lemma failing_state:
  "main_thread failing_session = M_Pool 0 (chunk Float64 1)"
  "pool failing_session = [T_Saved 1, T_Failed (ModelError 0)]"
  "trace failing_session = [RunningSet, LogFetching]"
  by code_simp+

subsection \<open>C1: the iterations of the producer\<close>




subsection \<open>C2: no consumption before the buffer is full\<close>

text \<open>
  C2: in every session, every dequeue and every sink write of the audio consumer comes
  after at least \<^verbatim>\<open>BUFFER_SIZE\<close> = 8 chunks were enqueued on the audio queue, and every
  dequeue and every frame shown by the video consumer comes after at least 8 batches were
  enqueued on the video queue.
\<close>

theorem consumers_wait_for_buffer:
  assumes "i < length (trace (session X clip tfl sm sched))"
  shows "BUFFER_SIZE = 8 \<and>
    (audio_consume (trace (session X clip tfl sm sched) ! i) \<longrightarrow>
       BUFFER_SIZE \<le> length (audio_puts (take i (trace (session X clip tfl sm sched))))) \<and>
    (video_consume (trace (session X clip tfl sm sched) ! i) \<longrightarrow>
       BUFFER_SIZE \<le> length (video_puts (take i (trace (session X clip tfl sm sched)))))"
  using session_gate_inv[of X clip tfl sm sched] assms
  by (simp add: gate_inv_def gated_def BUFFER_SIZE_def)

theorem consumers_wait_for_buffer_witness:
  "25 < length (trace sample_session) \<and>
   audio_consume (trace sample_session ! 25) \<and>
   BUFFER_SIZE \<le> length (audio_puts (take 25 (trace sample_session))) \<and>
   27 < length (trace sample_session) \<and>
   video_consume (trace sample_session ! 27) \<and>
   BUFFER_SIZE \<le> length (video_puts (take 27 (trace sample_session)))"
proof -
  have a: "25 < length (trace sample_session)" "audio_consume (trace sample_session ! 25)"
    and v: "27 < length (trace sample_session)" "video_consume (trace sample_session ! 27)"
    by (simp_all add: sample_trace)
  note gate = consumers_wait_for_buffer[of _ sample_ext sample_file False True sample_schedule,
      folded sample_session_def]
  from gate[OF a(1)] gate[OF v(1)] a v show ?thesis by blast
qed

subsection \<open>C3: the order of the frames of a batch\<close>

text \<open>
  C3: the i-th frame of every batch is the enhancement of the i-th frame of its second.
  With only the TFLite interpreter configured, the code breaks this: the pool's calls
  share the one interpreter of the player, and \<^verbatim>\<open>tflite_super_resolve\<close> writes its input
  tensor, invokes and reads the output tensor in three separate calls. In the session
  below the call for the second frame writes the input tensor between the first call's
  \<^verbatim>\<open>set_tensor\<close> and \<^verbatim>\<open>invoke\<close>: the batch enqueued is \<open>[20, 20]\<close>, twice the
  enhancement of the second frame, where the enhancements of the two frames are 10 and 20.
\<close>

theorem shared_interpreter_race:
  "video_puts (trace race_session) = [[20, 20]] \<and>
   map (\<lambda>f. tflite_invoke sample_ext (resize sample_ext f)) (file_frames two_frames) =
     [Inr 10, Inr 20]"
  by code_simp

text \<open>
  With a SavedModel, or with no model at all, the frames of every batch enqueued are the
  enhancements of the frames of its second, in the order of the clip, whatever the order
  in which the pool's calls run.
\<close>

lemma saved_model_batches_in_order:
  assumes "\<not> (tfl \<and> \<not> sm)"
    and "j < length (video_puts (trace (session X clip tfl sm sched)))"
  shows "map Some (video_puts (trace (session X clip tfl sm sched)) ! j) =
     map (enhanced X sm) (second_frames (nat (py_int (file_fps clip))) (file_frames clip) j)"
proof -
  have "enhanced_inv X (file_frames clip) (session X clip tfl sm sched)"
    unfolding session_def
  proof (rule exec_invariant)
    show "enhanced_inv X (file_frames clip) (Player_init clip tfl sm)"
      using assms(1)
      by (auto simp: enhanced_inv_def Player_init_def in_order_def observe_defs)
  qed (rule enhanced_inv_step)
  with assms(2) show ?thesis
    by (simp add: enhanced_inv_def in_order_def session_config session_models range_len_def)
qed

subsection \<open>C4: the length of a batch\<close>

text \<open>
  C4: every batch that the producer enqueues, the last one included, has exactly
  \<open>int(fps)\<close> frames (no frames for a negative rate, for which \<^verbatim>\<open>range\<close> is empty).
\<close>

theorem batch_length:
  assumes "b \<in> set (video_puts (trace (session X clip tfl sm sched)))"
  shows "length b = nat (py_int (file_fps clip)) \<and>
    (0 \<le> file_fps clip \<longrightarrow> int (length b) = py_int (file_fps clip))"
proof -
  from session_batch_inv[of X clip tfl sm sched] assms
  have "length b = range_len (py_int (file_fps clip))"
    by (simp add: batch_inv_def session_config)
  then show ?thesis
    using py_int_nonneg[of "file_fps clip"] by (simp add: range_len_def)
qed

theorem batch_length_witness:
  "[108] \<in> set (video_puts (trace sample_session)) \<and>
   last (video_puts (trace sample_session)) = [108] \<and>
   0 \<le> file_fps sample_file \<and>
   int (length [108 :: nat]) = py_int (file_fps sample_file)"
proof -
  have m: "[108] \<in> set (video_puts (trace sample_session))"
    and l: "last (video_puts (trace sample_session)) = [108]"
    by (simp_all add: sample_trace video_puts_def)
  have f: "0 \<le> file_fps sample_file"
    by (simp add: sample_file_def)
  note len = batch_length[of _ sample_ext sample_file False True sample_schedule,
      folded sample_session_def]
  from len[OF m] m l f show ?thesis by blast
qed

text \<open>
  A second for which the clip has fewer than \<open>int(fps)\<close> frames left makes no batch:
  \<^verbatim>\<open>next\<close> raises \<^verbatim>\<open>StopIteration\<close> in the loop of lines 97-107.
\<close>

lemma fetch_frames_short:
  "length it < k \<Longrightarrow> fetch_frames rs k it acc = (Inl StopIteration, [])"
  by (induction rs k it acc rule: fetch_frames.induct) auto

subsection \<open>C5: a batch whose enhancement raises\<close>

text \<open>
  C5: once a call of the enhancement has raised for a frame of the batch that
  \<^verbatim>\<open>video_second\<close> is processing, no batch is enqueued on the video queue any more,
  and every frame shown from then on is a frame of a batch enqueued before: no frame of
  the failed batch reaches the queue or the display.
\<close>

theorem failed_batch_not_delivered:
  assumes "main_thread (session X clip tfl sm sched) = M_Pool i a"
    and "T_Failed e \<in> set (pool (session X clip tfl sm sched))"
  shows "video_puts (trace (session X clip tfl sm (sched @ later))) =
      video_puts (trace (session X clip tfl sm sched)) \<and>
    prefix (presents (trace (session X clip tfl sm (sched @ later))))
      (map (make_surface X) (concat (video_puts (trace (session X clip tfl sm sched)))))"
proof -
  let ?s = "session X clip tfl sm sched"
  from session_pool_inv[of X clip tfl sm sched] assms(2)
  have "pool_error ?s \<noteq> None"
    by (auto simp: pool_inv_def)
  with assms(1) have "doomed (video_puts (trace ?s)) ?s"
    by (simp add: doomed_def)
  then have "doomed (video_puts (trace ?s)) (exec X later ?s)"
    by (rule exec_invariant) (rule doomed_step)
  then have same: "video_puts (trace (session X clip tfl sm (sched @ later))) =
      video_puts (trace ?s)"
    by (simp add: doomed_def session_append)
  with session_presents_prefix[of X clip tfl sm "sched @ later"]
  show ?thesis by simp
qed

theorem failed_batch_not_delivered_witness:
  "main_thread failing_session = M_Pool 0 (chunk Float64 1) \<and>
   T_Failed (ModelError 0) \<in> set (pool failing_session) \<and>
   video_puts (trace (session sample_ext bad_file False True
      ([Main, Main, Main, Main, Main, Worker 1] @ [Worker 0, Main, Main, Video]))) = [] \<and>
   presents (trace (session sample_ext bad_file False True
      ([Main, Main, Main, Main, Main, Worker 1] @ [Worker 0, Main, Main, Video]))) = []"
proof -
  have m: "main_thread failing_session = M_Pool 0 (chunk Float64 1)"
    and p: "T_Failed (ModelError 0) \<in> set (pool failing_session)"
    and t: "video_puts (trace failing_session) = []"
    by (simp_all add: failing_state video_puts_def)
  note fail = failed_batch_not_delivered[of sample_ext bad_file False True
      "[Main, Main, Main, Main, Main, Worker 1]" 0 "chunk Float64 1" "ModelError 0"
      "[Worker 0, Main, Main, Video]", folded failing_session_def]
  from fail[OF m p] have "video_puts (trace (session sample_ext bad_file False True
      ([Main, Main, Main, Main, Main, Worker 1] @ [Worker 0, Main, Main, Video]))) = []"
    and "presents (trace (session sample_ext bad_file False True
      ([Main, Main, Main, Main, Main, Worker 1] @ [Worker 0, Main, Main, Video]))) = []"
    by (simp_all add: t)
  with m p show ?thesis by blast
qed

text \<open>
  A call of the enhancement that raises leaves its task failed: the SavedModel call of
  line 83, and the \<^verbatim>\<open>invoke\<close> of line 70.
\<close>

lemma raising_call_fails:
  assumes "k < length (pool s)"
  shows "pool s ! k = T_Saved f \<Longrightarrow> saved_model s \<Longrightarrow> saved_model_call X f = Inl e \<Longrightarrow>
      pool (worker X k s) ! k = T_Failed e"
    and "pool s ! k = T_Invoke \<Longrightarrow> input_tensor s = Some x \<Longrightarrow> tflite_invoke X x = Inl e \<Longrightarrow>
      pool (worker X k s) ! k = T_Failed e"
  using assms
  by (simp_all add: worker_def task_step_def saved_model_super_resolve_def)

subsection \<open>C6: what the audio sink receives\<close>

text \<open>
  C6, as the spec states it: every chunk is written to the audio sink exactly as
  received, with no format conversion. It fails in the sample session: the first chunk
  dequeued holds 64-bit samples, and what the sink receives are the bytes of 32-bit
  samples, not the bytes of the chunk.
\<close>

theorem audio_chunk_converted:
  "audio_gets (trace sample_session) = [chunk Float64 1] \<and>
   audio_writes (trace sample_session) = [(Float32, [1, 1 / 2])] \<and>
   (Float32, [1, 1 / 2]) \<noteq> tostring (chunk Float64 1)"
  by (simp add: sample_trace observe_defs tostring_def chunk_def)

text \<open>
  C6, amended: the audio consumer writes one buffer for every chunk it dequeues, in the
  order of the dequeues: at every moment the buffers written are those of all the chunks
  dequeued, but for at most the one chunk just dequeued, which the consumer's next step
  writes. The buffer holds the bytes of the chunk converted to 32-bit floats by
  \<^verbatim>\<open>astype("float32")\<close>: as many samples as the chunk has (no resampling), and the
  bytes of the chunk itself if and only if its samples are 32-bit floats already.
\<close>

theorem audio_written_as_float32:
  "map (to_device X) (audio_gets (trace (session X clip tfl sm sched))) =
     audio_writes (trace (session X clip tfl sm sched)) @
       map (to_device X) (in_hand (audio_thread (session X clip tfl sm sched))) \<and>
   length (in_hand (audio_thread (session X clip tfl sm sched))) \<le> 1 \<and>
   (audio_thread (session X clip tfl sm sched) = A_Write b \<longrightarrow>
      audio_gets (trace (step X Audio (session X clip tfl sm sched))) =
        audio_gets (trace (session X clip tfl sm sched)) \<and>
      audio_writes (trace (step X Audio (session X clip tfl sm sched))) =
        audio_writes (trace (session X clip tfl sm sched)) @ [to_device X b]) \<and>
   fst (to_device X a) = Float32 \<and>
   length (snd (to_device X a)) = length (samples a) \<and>
   (to_device X a = tostring a \<longleftrightarrow> dtype a = Float32)"
proof -
  let ?s = "session X clip tfl sm sched"
  have inv: "map (to_device X) (audio_gets (trace ?s)) =
      audio_writes (trace ?s) @ map (to_device X) (in_hand (audio_thread ?s))"
    using session_written_inv[of X clip tfl sm sched] by (simp add: written_inv_def)
  have one: "length (in_hand (audio_thread ?s)) \<le> 1"
    by (rule in_hand_le)
  have nxt: "audio_thread ?s = A_Write b \<longrightarrow>
      audio_gets (trace (step X Audio ?s)) = audio_gets (trace ?s) \<and>
      audio_writes (trace (step X Audio ?s)) = audio_writes (trace ?s) @ [to_device X b]"
    by (simp add: write_audio_stream_def emit_def observe_defs to_device_def)
  have f32: "fst (to_device X a) = Float32"
    and len: "length (snd (to_device X a)) = length (samples a)"
    by (simp_all add: to_device_def tostring_def astype_def)
  have iff: "to_device X a = tostring a \<longleftrightarrow> dtype a = Float32"
  proof
    assume "to_device X a = tostring a"
    then have "fst (to_device X a) = fst (tostring a)"
      by simp
    with f32 show "dtype a = Float32"
      by (simp add: tostring_def)
  next
    assume "dtype a = Float32"
    then show "to_device X a = tostring a"
      by (simp add: to_device_def astype_def)
  qed
  from inv one nxt f32 len iff show ?thesis
    by (intro conjI)
qed

theorem audio_written_as_float32_witness:
  "audio_thread (session sample_ext sample_file False True
      (buffering 8 1 @ [Audio, Audio, Audio])) = A_Write (chunk Float64 1) \<and>
   audio_writes (trace (step sample_ext Audio (session sample_ext sample_file False True
      (buffering 8 1 @ [Audio, Audio, Audio])))) =
     audio_writes (trace (session sample_ext sample_file False True
      (buffering 8 1 @ [Audio, Audio, Audio]))) @ [to_device sample_ext (chunk Float64 1)] \<and>
   in_hand (audio_thread sample_session) = [] \<and>
   map (to_device sample_ext) (audio_gets (trace sample_session)) =
     audio_writes (trace sample_session) \<and>
   dtype (chunk Float32 2) = Float32 \<and>
   to_device sample_ext (chunk Float32 2) = tostring (chunk Float32 2) \<and>
   to_device sample_ext (chunk Float64 1) \<noteq> tostring (chunk Float64 1)"
proof -
  let ?s = "session sample_ext sample_file False True (buffering 8 1 @ [Audio, Audio, Audio])"
  have w: "audio_thread ?s = A_Write (chunk Float64 1)"
    by code_simp
  note pending = audio_written_as_float32[of sample_ext sample_file False True
      "buffering 8 1 @ [Audio, Audio, Audio]" "chunk Float64 1" "chunk Float64 1"]
  note written = pending[THEN conjunct2, THEN conjunct2, THEN conjunct1, THEN mp, OF w,
      THEN conjunct2]
  note differs = pending[THEN conjunct2, THEN conjunct2, THEN conjunct2, THEN conjunct2,
      THEN conjunct2]
  have h: "in_hand (audio_thread sample_session) = []"
    by code_simp
  note sample = audio_written_as_float32[of sample_ext sample_file False True sample_schedule
      "chunk Float64 1" "chunk Float32 2", folded sample_session_def]
  from sample[THEN conjunct1] h
  have all: "map (to_device sample_ext) (audio_gets (trace sample_session)) =
      audio_writes (trace sample_session)"
    by simp
  note same = sample[THEN conjunct2, THEN conjunct2, THEN conjunct2, THEN conjunct2,
      THEN conjunct2]
  have d32: "dtype (chunk Float32 2) = Float32" and d64: "dtype (chunk Float64 1) \<noteq> Float32"
    by (simp_all add: chunk_def)
  from same d32 have eq: "to_device sample_ext (chunk Float32 2) = tostring (chunk Float32 2)"
    by simp
  from differs d64 have ne: "to_device sample_ext (chunk Float64 1) \<noteq> tostring (chunk Float64 1)"
    by simp
  from w written h all d32 eq ne show ?thesis
    by (intro conjI)
qed

subsection \<open>C7: the pacing of the frames\<close>

text \<open>
  C7, as the spec states it: after every frame shown the video consumer sleeps
  \<open>(1000/fps - 2.25)/1000\<close> seconds. It fails in the session below, at 500 frames per
  second: the interval is negative, \<^verbatim>\<open>time.sleep\<close> raises \<^verbatim>\<open>ValueError\<close>, and the
  consumer ends after the first frame shown, with no sleep.
\<close>

theorem frame_shown_without_sleep:
  "(1000 / file_fps fast_file - 9 / 4) / 1000 = - 1 / 4000 \<and>
   presents (trace fast_session) = [1] \<and>
   display (trace fast_session) = [Present 1] \<and>
   video_thread fast_session = V_Raised ValueError"
proof -
  have m: "range_len (py_int (file_fps fast_file)) = Suc 499"
    and K: "range_len (py_int (file_duration fast_file)) = 8"
    by (simp_all add: fast_file_def range_len_def py_int_def)
  have frames: "file_frames fast_file = replicate (8 * Suc 499) 1"
    and chunks: "file_chunks fast_file = replicate 8 (chunk Float64 1)"
    by (simp_all add: fast_file_def)
  have buf: "BUFFER_SIZE \<le> 8"
    by (simp add: BUFFER_SIZE_def)
  have fast: "4000 / 9 < file_fps fast_file"
    by (simp add: fast_file_def)
  have s: "fast_session = session sample_ext fast_file False False
      (buffering 8 (Suc 499) @ [Video, Video, Video, Video, Video])"
    by (simp add: fast_session_def)
  have "(1000 / file_fps fast_file - 9 / 4) / 1000 = - 1 / 4000"
    by (simp add: fast_file_def)
  with fast_clip_raises[OF m K frames chunks buf fast, of sample_ext, folded s]
  show ?thesis by (simp add: sample_ext_def)
qed

text \<open>
  C7, amended: at a frame rate of at most 4000/9 (about 444.4) frames per second, for
  which the interval \<open>(1000/fps - 2.25)/1000\<close> is not negative, the video consumer's
  presents and sleeps alternate, every sleep has exactly that length, and the frame shown
  last may still await its sleep. The length depends on the frame rate only, not on the
  schedule or the clock.
\<close>

theorem frames_paced:
  assumes "0 < file_fps clip" and "file_fps clip \<le> 4000 / 9"
  shows "0 \<le> (1000 / file_fps clip - 9 / 4) / 1000 \<and>
    (display (trace (session X clip tfl sm sched)) =
       pacing ((1000 / file_fps clip - 9 / 4) / 1000) (presents (trace (session X clip tfl sm sched))) \<or>
     presents (trace (session X clip tfl sm sched)) \<noteq> [] \<and>
     display (trace (session X clip tfl sm sched)) =
       butlast (pacing ((1000 / file_fps clip - 9 / 4) / 1000)
         (presents (trace (session X clip tfl sm sched)))))"
proof -
  let ?s = "session X clip tfl sm sched"
  from assms have "9 / 4 \<le> 1000 / file_fps clip"
    by (simp add: pos_le_divide_eq)
  then have nonneg: "0 \<le> (1000 / file_fps clip - 9 / 4) / 1000"
    by simp
  from session_paced_inv[OF assms, of X tfl sm sched]
  have "paced_at (frame_interval (file_fps clip)) (video_thread ?s) (presents (trace ?s))
      (display (trace ?s))"
    by (simp add: paced_inv_def session_config)
  from paced_at_cases[OF this] nonneg show ?thesis
    by (simp add: frame_interval_def)
qed

theorem frames_paced_witness:
  "0 < file_fps sample_file \<and> file_fps sample_file \<le> 4000 / 9 \<and>
   0 \<le> (1000 / file_fps sample_file - 9 / 4) / 1000 \<and>
   presents (trace sample_session) = [101] \<and>
   display (trace sample_session) =
     [Present 101, Sleep ((1000 / file_fps sample_file - 9 / 4) / 1000)]"
proof -
  have f: "0 < file_fps sample_file" "file_fps sample_file \<le> 4000 / 9"
    by (simp_all add: sample_file_def)
  have p: "presents (trace sample_session) = [101]"
    by (simp add: sample_trace presents_def)
  have d: "display (trace sample_session) =
      [Present 101, Sleep ((1000 / file_fps sample_file - 9 / 4) / 1000)]"
    by (simp add: sample_trace display_def sample_file_def)
  note paced = frames_paced[OF f, of sample_ext False True sample_schedule,
      folded sample_session_def]
  from paced[THEN conjunct1] f p d show ?thesis
    by (intro conjI)
qed

subsection \<open>C8: the run flag\<close>

text \<open>
  C8: \<^verbatim>\<open>running\<close> is false after \<^verbatim>\<open>__init__\<close>; in every session it is true exactly
  from the first guarded block of \<^verbatim>\<open>run\<close> on, and it was assigned exactly once by then;
  no step of any thread makes it false again; the only step that changes it is the
  first guarded block, taken with the lock held; and the second guarded block of
  \<^verbatim>\<open>run\<close>, also under the lock, leaves the flag true and assigns nothing.
\<close>

theorem run_state_set_once:
  "\<not> running (Player_init clip tfl sm) \<and>
   (running (session X clip tfl sm sched) \<longleftrightarrow>
      \<not> before_start (main_thread (session X clip tfl sm sched))) \<and>
   running_sets (trace (session X clip tfl sm sched)) =
     (if running (session X clip tfl sm sched) then 1 else 0) \<and>
   (running (session X clip tfl sm sched) \<longrightarrow>
      running (step X a (session X clip tfl sm sched))) \<and>
   (running (step X a (session X clip tfl sm sched)) \<noteq> running (session X clip tfl sm sched) \<longrightarrow>
      a = Main \<and> main_thread (session X clip tfl sm sched) = M_Set1 \<and>
      lock (session X clip tfl sm sched)) \<and>
   (main_thread (session X clip tfl sm sched) = M_Set2 \<longrightarrow>
      lock (session X clip tfl sm sched) \<and>
      running (step X Main (session X clip tfl sm sched)) \<and>
      trace (step X Main (session X clip tfl sm sched)) = trace (session X clip tfl sm sched))"
proof -
  let ?s = "session X clip tfl sm sched"
  have init: "\<not> running (Player_init clip tfl sm)"
    by (simp add: Player_init_def)
  have inv: "run_inv ?s"
    by (rule session_run_inv)
  have mono: "running ?s \<longrightarrow> running (step X a ?s)"
    by (simp add: running_mono)
  have change: "running (step X a ?s) \<noteq> running ?s \<longrightarrow>
      a = Main \<and> main_thread ?s = M_Set1 \<and> lock ?s"
  proof
    assume ch: "running (step X a ?s) \<noteq> running ?s"
    then have a: "a = Main" and pc: "main_thread ?s = M_Set1 \<or> main_thread ?s = M_Set2"
      using running_changes[of X a ?s] by simp_all
    have "main_thread ?s \<noteq> M_Set2"
    proof
      assume "main_thread ?s = M_Set2"
      with inv have "running ?s" by (simp add: run_inv_def)
      with ch running_mono[of ?s X a] show False by simp
    qed
    with pc have "main_thread ?s = M_Set1" by simp
    with inv a show "a = Main \<and> main_thread ?s = M_Set1 \<and> lock ?s"
      by (simp add: run_inv_def)
  qed
  have second: "main_thread ?s = M_Set2 \<longrightarrow>
      lock ?s \<and> running (step X Main ?s) \<and> trace (step X Main ?s) = trace ?s"
    using inv by (auto simp: run_inv_def run_def set_running_def)
  from init inv mono change second show ?thesis
    unfolding run_inv_def by blast
qed

theorem run_state_set_once_witness:
  "running (step sample_ext Main (session sample_ext sample_file False True [Main])) \<noteq>
     running (session sample_ext sample_file False True [Main]) \<and>
   main_thread (session sample_ext sample_file False True [Main]) = M_Set1 \<and>
   lock (session sample_ext sample_file False True [Main]) \<and>
   main_thread (session sample_ext sample_file False True (buffering 8 1 @ [Main, Main])) = M_Set2 \<and>
   running (session sample_ext sample_file False True (buffering 8 1 @ [Main, Main])) \<and>
   running (step sample_ext Main
     (session sample_ext sample_file False True (buffering 8 1 @ [Main, Main]))) \<and>
   running_sets (trace (step sample_ext Main
     (session sample_ext sample_file False True (buffering 8 1 @ [Main, Main])))) = 1"
proof -
  let ?s1 = "session sample_ext sample_file False True [Main]"
  let ?s2 = "session sample_ext sample_file False True (buffering 8 1 @ [Main, Main])"
  have ch: "running (step sample_ext Main ?s1) \<noteq> running ?s1"
    by code_simp
  have pc: "main_thread ?s2 = M_Set2"
    by code_simp
  note first = run_state_set_once[of sample_file False True sample_ext "[Main]" Main]
  note second = run_state_set_once[of sample_file False True sample_ext
      "buffering 8 1 @ [Main, Main]" Main]
  note changed = first[THEN conjunct2, THEN conjunct2, THEN conjunct2, THEN conjunct2,
      THEN conjunct1, THEN mp, OF ch]
  note noop = second[THEN conjunct2, THEN conjunct2, THEN conjunct2, THEN conjunct2,
      THEN conjunct2, THEN mp, OF pc]
  note started = second[THEN conjunct2, THEN conjunct1]
  note once = second[THEN conjunct2, THEN conjunct2, THEN conjunct1]
  from started pc have r: "running ?s2"
    by simp
  from once r noop have "running_sets (trace (step sample_ext Main ?s2)) = 1"
    by (simp only: if_True)
  with ch changed pc r noop show ?thesis
    by (intro conjI) (elim conjE, assumption)+
qed

subsection \<open>C9: a consumer whose queue stays empty\<close>

text \<open>
  C9: each consumer calls \<^verbatim>\<open>get\<close> with a deadline ten seconds after the call, so a
  pending \<^verbatim>\<open>get\<close> never has more than ten seconds left; while the queue is empty and
  the deadline has not passed the consumer stays blocked; when the queue is empty at the
  deadline \<^verbatim>\<open>get\<close> raises \<^verbatim>\<open>Empty\<close>, and the consumer ends with that exception;
  a consumer that has raised never dequeues or writes again, whatever the other threads do.
\<close>

theorem starved_consumer_dies:
  "(audio_thread (session X clip tfl sm sched) = A_While \<and> running (session X clip tfl sm sched) \<longrightarrow>
      audio_thread (step X Audio (session X clip tfl sm sched)) =
        A_Get (clock (session X clip tfl sm sched) + 10)) \<and>
   (audio_thread (session X clip tfl sm sched) = A_Get t \<longrightarrow>
      t \<le> clock (session X clip tfl sm sched) + 10 \<and>
      (audio_queue (session X clip tfl sm sched) = [] \<and> clock (session X clip tfl sm sched) < t \<longrightarrow>
         step X Audio (session X clip tfl sm sched) = session X clip tfl sm sched) \<and>
      (audio_queue (session X clip tfl sm sched) = [] \<and> t \<le> clock (session X clip tfl sm sched) \<longrightarrow>
         audio_thread (step X Audio (session X clip tfl sm sched)) = A_Raised Empty)) \<and>
   (audio_thread (session X clip tfl sm sched) = A_Raised e \<longrightarrow>
      audio_thread (session X clip tfl sm (sched @ later)) = A_Raised e \<and>
      audio_events (trace (session X clip tfl sm (sched @ later))) =
        audio_events (trace (session X clip tfl sm sched))) \<and>
   (video_thread (session X clip tfl sm sched) = V_While \<and> running (session X clip tfl sm sched) \<longrightarrow>
      video_thread (step X Video (session X clip tfl sm sched)) =
        V_Get (clock (session X clip tfl sm sched) + 10)) \<and>
   (video_thread (session X clip tfl sm sched) = V_Get u \<longrightarrow>
      u \<le> clock (session X clip tfl sm sched) + 10 \<and>
      (video_queue (session X clip tfl sm sched) = [] \<and> clock (session X clip tfl sm sched) < u \<longrightarrow>
         step X Video (session X clip tfl sm sched) = session X clip tfl sm sched) \<and>
      (video_queue (session X clip tfl sm sched) = [] \<and> u \<le> clock (session X clip tfl sm sched) \<longrightarrow>
         video_thread (step X Video (session X clip tfl sm sched)) = V_Raised Empty)) \<and>
   (video_thread (session X clip tfl sm sched) = V_Raised e' \<longrightarrow>
      video_thread (session X clip tfl sm (sched @ later)) = V_Raised e' \<and>
      video_events (trace (session X clip tfl sm (sched @ later))) =
        video_events (trace (session X clip tfl sm sched)))"
proof -
  let ?s = "session X clip tfl sm sched"
  have dl: "deadline_inv ?s"
    by (rule session_deadline_inv)
  have a1: "audio_thread ?s = A_While \<and> running ?s \<longrightarrow>
      audio_thread (step X Audio ?s) = A_Get (clock ?s + 10)"
    by (simp add: write_audio_stream_def)
  have a2: "audio_thread ?s = A_Get t \<longrightarrow> t \<le> clock ?s + 10 \<and>
      (audio_queue ?s = [] \<and> clock ?s < t \<longrightarrow> step X Audio ?s = ?s) \<and>
      (audio_queue ?s = [] \<and> t \<le> clock ?s \<longrightarrow> audio_thread (step X Audio ?s) = A_Raised Empty)"
    using dl by (auto simp: deadline_inv_def write_audio_stream_def)
  have a3: "audio_thread ?s = A_Raised e \<longrightarrow>
      audio_thread (session X clip tfl sm (sched @ later)) = A_Raised e \<and>
      audio_events (trace (session X clip tfl sm (sched @ later))) = audio_events (trace ?s)"
  proof
    assume "audio_thread ?s = A_Raised e"
    then have "audio_dead e (audio_events (trace ?s)) ?s"
      by (simp add: audio_dead_def)
    then have "audio_dead e (audio_events (trace ?s)) (exec X later ?s)"
      by (rule exec_invariant) (rule audio_dead_step)
    then show "audio_thread (session X clip tfl sm (sched @ later)) = A_Raised e \<and>
        audio_events (trace (session X clip tfl sm (sched @ later))) = audio_events (trace ?s)"
      by (simp add: audio_dead_def session_append)
  qed
  have v1: "video_thread ?s = V_While \<and> running ?s \<longrightarrow>
      video_thread (step X Video ?s) = V_Get (clock ?s + 10)"
    by (simp add: write_video_stream_def)
  have v2: "video_thread ?s = V_Get u \<longrightarrow> u \<le> clock ?s + 10 \<and>
      (video_queue ?s = [] \<and> clock ?s < u \<longrightarrow> step X Video ?s = ?s) \<and>
      (video_queue ?s = [] \<and> u \<le> clock ?s \<longrightarrow> video_thread (step X Video ?s) = V_Raised Empty)"
    using dl by (auto simp: deadline_inv_def write_video_stream_def)
  have v3: "video_thread ?s = V_Raised e' \<longrightarrow>
      video_thread (session X clip tfl sm (sched @ later)) = V_Raised e' \<and>
      video_events (trace (session X clip tfl sm (sched @ later))) = video_events (trace ?s)"
  proof
    assume "video_thread ?s = V_Raised e'"
    then have "video_dead e' (video_events (trace ?s)) ?s"
      by (simp add: video_dead_def)
    then have "video_dead e' (video_events (trace ?s)) (exec X later ?s)"
      by (rule exec_invariant) (rule video_dead_step)
    then show "video_thread (session X clip tfl sm (sched @ later)) = V_Raised e' \<and>
        video_events (trace (session X clip tfl sm (sched @ later))) = video_events (trace ?s)"
      by (simp add: video_dead_def session_append)
  qed
  from a1 a2 a3 v1 v2 v3 show ?thesis by blast
qed

theorem starved_consumer_dies_witness:
  "audio_thread starved_session = A_Get (59 / 5) \<and>
   audio_queue starved_session = [] \<and>
   59 / 5 \<le> clock starved_session \<and>
   audio_thread (step sample_ext Audio starved_session) = A_Raised Empty \<and>
   audio_thread (session sample_ext sample_file False True (starved_schedule @ [Audio]))
     = A_Raised Empty \<and>
   audio_thread (session sample_ext sample_file False True
     ((starved_schedule @ [Audio]) @ [Audio, Main, Audio])) = A_Raised Empty \<and>
   video_thread sample_session = V_While \<and> running sample_session \<and>
   video_thread (step sample_ext Video sample_session) = V_Get (clock sample_session + 10)"
proof -
  note starve = starved_consumer_dies[of sample_ext sample_file False True starved_schedule
      "59 / 5" _ _ _ _, folded starved_session_def]
  have g: "audio_thread starved_session = A_Get (59 / 5)"
    and q: "audio_queue starved_session = []"
    and c: "59 / 5 \<le> clock starved_session"
    by (simp_all add: starved_state)
  note pending = starve[THEN conjunct2, THEN conjunct1, THEN mp, OF g]
  from pending[THEN conjunct2, THEN conjunct2] q c
  have r: "audio_thread (step sample_ext Audio starved_session) = A_Raised Empty"
    by (rule mp[OF _ conjI])
  then have d: "audio_thread (session sample_ext sample_file False True (starved_schedule @ [Audio]))
      = A_Raised Empty"
    by (simp add: session_append starved_session_def)
  note dead = starved_consumer_dies[of sample_ext sample_file False True
      "starved_schedule @ [Audio]" _ Empty "[Audio, Main, Audio]"]
  note k = dead[THEN conjunct2, THEN conjunct2, THEN conjunct1, THEN mp, OF d, THEN conjunct1]
  have w: "video_thread sample_session = V_While" and u: "running sample_session"
    by code_simp+
  note sample = starved_consumer_dies[of sample_ext sample_file False True sample_schedule,
      folded sample_session_def]
  note v = sample[THEN conjunct2, THEN conjunct2, THEN conjunct2, THEN conjunct1,
      THEN mp, OF conjI, OF w u]
  from g q c r d k w u v show ?thesis
    by (intro conjI)
qed

subsection \<open>C10: audio is enqueued before video\<close>

text \<open>
  C10: in every session the producer's events are, iteration by iteration, the fetch, the
  put of the chunk, the put of the batch, in this order; so at every point of every
  session at least as many chunks as batches have been enqueued, and at most one more.
\<close>

theorem audio_enqueued_first:
  "prefix (producer (trace (session X clip tfl sm sched)))
     (concat (replicate (nat \<lfloor>file_duration clip\<rfloor>) [Fetch, APut, VPut])) \<and>
   length (video_puts (take i (trace (session X clip tfl sm sched)))) \<le>
     length (audio_puts (take i (trace (session X clip tfl sm sched)))) \<and>
   length (audio_puts (take i (trace (session X clip tfl sm sched)))) \<le>
     Suc (length (video_puts (take i (trace (session X clip tfl sm sched)))))"
proof -
  let ?s = "session X clip tfl sm sched"
  have "producer_at (nat \<lfloor>file_duration clip\<rfloor>) (main_thread ?s) (producer (trace ?s))"
    using session_producer_inv[of X clip tfl sm sched]
    by (simp add: producer_inv_def session_config range_len_py_int)
  then have "prefix (producer (trace ?s)) (pattern (nat \<lfloor>file_duration clip\<rfloor>))"
    by (rule producer_at_prefix)
  moreover have "balanced (trace ?s)"
    using session_order_inv[of X clip tfl sm sched] by (simp add: order_inv_def)
  ultimately show ?thesis
    by (simp add: balanced_def pattern_def)
qed

end
